theory Spec2Isabelle
  imports Main "HOL-Library.Word" "HOL-Library.AList"
begin

section \<open>Exceptions\<close>

text \<open>
  The header throws three kinds of exception. \<open>parse_exception\<close> has two constructors:
  \<open>parse_exception(err)\<close> and \<open>parse_exception(err, line_number)\<close>; the datatype keeps
  which one was called with which arguments, and \<open>what\<close> is the text the constructor
  hands to \<open>std::runtime_error\<close>. \<open>std::out_of_range\<close> comes from \<open>map_.at\<close>,
  from \<open>resolve_qualified\<close> and from \<open>std::stoll\<close>; \<open>std::invalid_argument\<close> from
  \<open>std::stoll\<close> and \<open>std::stod\<close>. A read through an iterator that has left the line
  buffer, through a null pointer or at \<open>back()\<close> of an empty vector has no defined
  result in C++; the model stops there with \<open>undefined_behaviour\<close>.
\<close>

datatype exn =
    parse_exception string
  | parse_exception_at string nat
  | out_of_range string
  | invalid_argument string
  | undefined_behaviour

fun to_string :: "nat \<Rightarrow> string" where
  "to_string n =
     (if n < 10 then [char_of (48 + n)]
      else to_string (n div 10) @ [char_of (48 + n mod 10)])"

declare to_string.simps [simp del]

fun what :: "exn \<Rightarrow> string" where
  "what (parse_exception err) = err"
| "what (parse_exception_at err line_number) = err @ '' at line '' @ to_string line_number"
| "what (out_of_range err) = err"
| "what (invalid_argument err) = err"
| "what undefined_behaviour = []"

section \<open>Node model\<close>

text \<open>
  \<open>std::tm\<close> after \<open>memset\<close> to zero: only the six fields the parser assigns are kept.
\<close>

record tm =
  tm_year :: int
  tm_mon :: int
  tm_mday :: int
  tm_hour :: int
  tm_min :: int
  tm_sec :: int

text \<open>
  The model does not fix a representation of floating point numbers: \<open>double\<close> is a
  type of its own, and \<open>std::stod\<close>, the one place where the header makes a \<open>double\<close>,
  is a parameter of the parser.
\<close>

typedecl double

instantiation double :: equal
begin

definition equal_double :: "double \<Rightarrow> double \<Rightarrow> bool" where
  "equal_double x y \<longleftrightarrow> x = y"

instance
  by standard (simp add: equal_double_def)

end

text \<open>\<open>value<T>\<close> for the five types \<open>valid_value\<close> admits.\<close>

datatype scalar =
    String string
  | Int64 "64 word"
  | Double double
  | Bool bool
  | Date tm

text \<open>
  The class hierarchy under \<open>base\<close>. A \<open>table\<close> owns a
  \<open>std::unordered_map<std::string, std::shared_ptr<base>>\<close>: an association list with
  one entry for each key. A \<open>table_array\<close> owns a vector of tables.
\<close>

datatype base =
    Value "scalar"
  | Array "base list"
  | Table "(string \<times> base) list"
  | Table_array "(string \<times> base) list list"

type_synonym table = "(string \<times> base) list"

fun is_value :: "base \<Rightarrow> bool" where
  "is_value (Value _) = True"
| "is_value _ = False"

fun is_table :: "base \<Rightarrow> bool" where
  "is_table (Table _) = True"
| "is_table _ = False"

fun is_array :: "base \<Rightarrow> bool" where
  "is_array (Array _) = True"
| "is_array _ = False"

fun is_table_array :: "base \<Rightarrow> bool" where
  "is_table_array (Table_array _) = True"
| "is_table_array _ = False"

text \<open>The downcasts return \<open>nullptr\<close> (here \<open>None\<close>) when the dynamic kind differs.\<close>

fun as_table :: "base \<Rightarrow> table option" where
  "as_table (Table t) = Some t"
| "as_table _ = None"

fun as_array :: "base \<Rightarrow> base list option" where
  "as_array (Array vs) = Some vs"
| "as_array _ = None"

fun as_table_array :: "base \<Rightarrow> table list option" where
  "as_table_array (Table_array ts) = Some ts"
| "as_table_array _ = None"

text \<open>The template argument of \<open>as<T>\<close> and \<open>parse_value_array<T>\<close>.\<close>

datatype value_type = T_string | T_int64 | T_double | T_bool | T_tm

fun type_of :: "scalar \<Rightarrow> value_type" where
  "type_of (String _) = T_string"
| "type_of (Int64 _) = T_int64"
| "type_of (Double _) = T_double"
| "type_of (Bool _) = T_bool"
| "type_of (Date _) = T_tm"

text \<open>\<open>base::as<T>\<close>: the \<open>dynamic_pointer_cast\<close> to \<open>value<T>\<close>.\<close>

fun as_value :: "value_type \<Rightarrow> base \<Rightarrow> scalar option" where
  "as_value T (Value s) = (if type_of s = T then Some s else None)"
| "as_value T _ = None"

section \<open>Tables\<close>

definition contains :: "table \<Rightarrow> string \<Rightarrow> bool" where
  "contains m key = (map_of m key \<noteq> None)"

text \<open>
  The text of the exception \<open>std::unordered_map::at\<close> throws is the standard library's.
\<close>

definition at_what :: string where
  "at_what = ''unordered_map::at''"

definition map_at :: "table \<Rightarrow> string \<Rightarrow> exn + base" where
  "map_at m key =
     (case map_of m key of None \<Rightarrow> Inl (out_of_range at_what) | Some b \<Rightarrow> Inr b)"

definition get :: "table \<Rightarrow> string \<Rightarrow> exn + base" where
  "get m key = map_at m key"

definition get_table :: "table \<Rightarrow> string \<Rightarrow> exn + table option" where
  "get_table m key =
     (if contains m key then
        (case get m key of
           Inl e \<Rightarrow> Inl e
         | Inr b \<Rightarrow> if is_table b then Inr (as_table b) else Inr None)
      else Inr None)"

definition get_array :: "table \<Rightarrow> string \<Rightarrow> exn + base list option" where
  "get_array m key =
     (if \<not> contains m key then Inr None
      else (case get m key of Inl e \<Rightarrow> Inl e | Inr b \<Rightarrow> Inr (as_array b)))"

definition get_table_array :: "table \<Rightarrow> string \<Rightarrow> exn + table list option" where
  "get_table_array m key =
     (if \<not> contains m key then Inr None
      else (case get m key of Inl e \<Rightarrow> Inl e | Inr b \<Rightarrow> Inr (as_table_array b)))"

text \<open>
  \<open>get_as<T>\<close> and \<open>get_qualified_as<T>\<close> have no definition here. Their bodies
  return \<open>v->value()\<close> for a \<open>v\<close> that points to a \<open>value<T>\<close>, and \<open>value<T>\<close> has no
  member function \<open>value\<close> (its datum is read with \<open>get\<close>): the two templates cannot be
  instantiated, so there is no call of them whose result could be described.
\<close>

text \<open>\<open>map_[key] = value\<close>.\<close>

definition insert_table :: "string \<Rightarrow> base \<Rightarrow> table \<Rightarrow> table" where
  "insert_table key v m = AList.update key v m"

subsection \<open>Qualified keys\<close>

text \<open>
  \<open>std::string::find(separator, p)\<close>: the first position at or after \<open>p\<close> holding the
  separator, \<open>npos\<close> (here \<open>None\<close>) when there is none.
\<close>

function find_char :: "string \<Rightarrow> char \<Rightarrow> nat \<Rightarrow> nat option" where
  "find_char s c p =
     (if p < length s then (if s ! p = c then Some p else find_char s c (Suc p)) else None)"
  by pat_completeness auto
termination
  by (relation "measure (\<lambda>(s, c, p). length s - p)") auto

declare find_char.simps [simp del]

definition substr :: "string \<Rightarrow> nat \<Rightarrow> nat \<Rightarrow> string" where
  "substr s p n = take n (drop p s)"

lemma find_char_bounds: "find_char s c p = Some q \<Longrightarrow> p \<le> q \<and> q < length s"
proof (induction s c p rule: find_char.induct)
  case (1 s c p)
  then show ?case
    by (subst (asm) (2) find_char.simps) (auto split: if_splits)
qed

text \<open>
  \<open>table::split\<close>. The loop carries \<open>p\<close> and \<open>result\<close>; it ends with the piece from
  \<open>p\<close> to the end of the string.
\<close>

function split_loop :: "string \<Rightarrow> char \<Rightarrow> nat \<Rightarrow> string list \<Rightarrow> string list" where
  "split_loop s separator p result =
     (case find_char s separator p of
        Some q \<Rightarrow> split_loop s separator (q + 1) (result @ [substr s p (q - p)])
      | None \<Rightarrow> result @ [drop p s])"
  by pat_completeness auto
termination
  by (relation "measure (\<lambda>(s, c, p, r). Suc (length s) - p)")
     (auto dest!: find_char_bounds)

declare split_loop.simps [simp del]

definition split_str :: "string \<Rightarrow> char \<Rightarrow> string list" where
  "split_str s separator = split_loop s separator 0 []"

text \<open>
  The \<open>for\<close> loop of \<open>resolve_qualified\<close> over all parts but the last. \<open>Inr None\<close> is
  the early \<open>return false\<close> of the form without output parameter; \<open>p\<close> tells whether
  the output parameter was given.
\<close>

fun resolve_parts :: "string \<Rightarrow> bool \<Rightarrow> table \<Rightarrow> string list \<Rightarrow> exn + table option" where
  "resolve_parts key p table [] = Inr (Some table)"
| "resolve_parts key p table (part # parts) =
     (case get_table table part of
        Inl e \<Rightarrow> Inl e
      | Inr None \<Rightarrow>
          if \<not> p then Inr None else Inl (out_of_range (key @ '' is not a valid key''))
      | Inr (Some t) \<Rightarrow> resolve_parts key p t parts)"

text \<open>
  \<open>resolve_qualified\<close> returns its \<open>bool\<close> together with what it stored in \<open>*p\<close>.
\<close>

definition resolve_qualified :: "table \<Rightarrow> string \<Rightarrow> bool \<Rightarrow> exn + bool \<times> base option" where
  "resolve_qualified m key p =
     (let parts = split_str key (CHR ''.'');
          last_key = last parts;
          parts = butlast parts
      in case resolve_parts key p m parts of
           Inl e \<Rightarrow> Inl e
         | Inr None \<Rightarrow> Inr (False, None)
         | Inr (Some table) \<Rightarrow>
             if \<not> p then Inr (map_of table last_key \<noteq> None, None)
             else (case map_at table last_key of
                     Inl e \<Rightarrow> Inl e
                   | Inr b \<Rightarrow> Inr (True, Some b)))"

definition contains_qualified :: "table \<Rightarrow> string \<Rightarrow> exn + bool" where
  "contains_qualified m key =
     (case resolve_qualified m key False of Inl e \<Rightarrow> Inl e | Inr (r, _) \<Rightarrow> Inr r)"

text \<open>
  \<open>get_qualified\<close> returns the \<open>std::shared_ptr<base> p\<close> it declared, which is null
  until \<open>resolve_qualified\<close> assigns it.
\<close>

definition get_qualified :: "table \<Rightarrow> string \<Rightarrow> exn + base option" where
  "get_qualified m key =
     (case resolve_qualified m key True of Inl e \<Rightarrow> Inl e | Inr (_, p) \<Rightarrow> Inr p)"

text \<open>\<open>get_qualified(key)->f()\<close>: the call through the returned pointer.\<close>

definition through :: "exn + base option \<Rightarrow> (base \<Rightarrow> 'a) \<Rightarrow> exn + 'a" where
  "through r f =
     (case r of
        Inl e \<Rightarrow> Inl e
      | Inr None \<Rightarrow> Inl undefined_behaviour
      | Inr (Some b) \<Rightarrow> Inr (f b))"

definition get_table_qualified :: "table \<Rightarrow> string \<Rightarrow> exn + table option" where
  "get_table_qualified m key =
     (case contains_qualified m key of
        Inl e \<Rightarrow> Inl e
      | Inr False \<Rightarrow> Inr None
      | Inr True \<Rightarrow>
          (case through (get_qualified m key) is_table of
             Inl e \<Rightarrow> Inl e
           | Inr False \<Rightarrow> Inr None
           | Inr True \<Rightarrow> through (get_qualified m key) as_table))"

definition get_array_qualified :: "table \<Rightarrow> string \<Rightarrow> exn + base list option" where
  "get_array_qualified m key =
     (case contains_qualified m key of
        Inl e \<Rightarrow> Inl e
      | Inr False \<Rightarrow> Inr None
      | Inr True \<Rightarrow> through (get_qualified m key) as_array)"

definition get_table_array_qualified :: "table \<Rightarrow> string \<Rightarrow> exn + table list option" where
  "get_table_array_qualified m key =
     (case contains_qualified m key of
        Inl e \<Rightarrow> Inl e
      | Inr False \<Rightarrow> Inr None
      | Inr True \<Rightarrow> through (get_qualified m key) as_table_array)"

section \<open>The parser\<close>

subsection \<open>Platform, state and iterators\<close>

text \<open>
  Two things the header takes from the platform: the macro \<open>CPPTOML_HAS_STD_REGEX\<close>,
  which selects the regex or the \<open>sscanf\<close> code for dates, and \<open>std::stod\<close>.
\<close>

record platform =
  CPPTOML_HAS_STD_REGEX :: bool
  stod :: "string \<Rightarrow> exn + double"

text \<open>
  The members of \<open>parser\<close>: \<open>input\<close> is what is left to read of the stream \<open>input_\<close>,
  \<open>line\<close>, \<open>line_number\<close> and \<open>tables\<close> are \<open>line_\<close>, \<open>line_number_\<close> and \<open>tables_\<close>.
\<close>

record parser =
  input :: string
  line :: string
  line_number :: nat
  tables :: "string set"

text \<open>
  A \<open>std::string::iterator\<close> is a position in the line, \<open>end\<close> is its length. The
  parser keeps every iterator it compares with \<open>end\<close> in the line (the two places where
  one leaves it stop with \<open>undefined_behaviour\<close>), so the test \<open>it != end\<close> is written
  \<open>it < length s\<close>. Reading \<open>*end\<close> yields the terminator that \<open>std::string\<close> keeps
  behind its last character.
\<close>

definition deref :: "string \<Rightarrow> nat \<Rightarrow> char" where
  "deref s it = (if it < length s then s ! it else CHR 0x00)"

text \<open>\<open>std::string{b, e}\<close>.\<close>

definition str_range :: "string \<Rightarrow> nat \<Rightarrow> nat \<Rightarrow> string" where
  "str_range s b e = take (e - b) (drop b s)"

text \<open>
  \<open>std::getline\<close> fails when nothing is left; otherwise it takes the characters up to
  the next newline and drops the newline.
\<close>

definition getline :: "string \<Rightarrow> (string \<times> string) option" where
  "getline s =
     (if s = [] then None
      else Some (takeWhile (\<lambda>c. c \<noteq> CHR 0x0A) s, drop 1 (dropWhile (\<lambda>c. c \<noteq> CHR 0x0A) s)))"

definition next_line :: "parser \<Rightarrow> parser option" where
  "next_line p =
     (case getline (input p) of
        None \<Rightarrow> None
      | Some (l, rest) \<Rightarrow> Some (p\<lparr>input := rest, line := l, line_number := line_number p + 1\<rparr>))"

definition throw_parse_exception :: "parser \<Rightarrow> string \<Rightarrow> exn" where
  "throw_parse_exception p err = parse_exception_at err (line_number p)"

definition is_space :: "char \<Rightarrow> bool" where
  "is_space c = (c = CHR '' '' \<or> c = CHR 0x09)"

function consume_whitespace :: "string \<Rightarrow> nat \<Rightarrow> nat" where
  "consume_whitespace s it =
     (if it < length s \<and> is_space (s ! it) then consume_whitespace s (Suc it) else it)"
  by pat_completeness auto
termination
  by (relation "measure (\<lambda>(s, it). length s - it)") auto

declare consume_whitespace.simps [simp del]

text \<open>\<open>std::find_if(b, e, P)\<close>; \<open>std::find\<close> is the case of an equality test.\<close>

function find_if :: "(char \<Rightarrow> bool) \<Rightarrow> string \<Rightarrow> nat \<Rightarrow> nat \<Rightarrow> nat" where
  "find_if P s b e =
     (if b < e then (if P (s ! b) then b else find_if P s (Suc b) e)
      else e)"
  by pat_completeness auto
termination
  by (relation "measure (\<lambda>(P, s, b, e). e - b)") auto

declare find_if.simps [simp del]

definition std_find :: "char \<Rightarrow> string \<Rightarrow> nat \<Rightarrow> nat \<Rightarrow> nat" where
  "std_find c s b e = find_if (\<lambda>x. x = c) s b e"

text \<open>
  \<open>consume_backwards_whitespace\<close> moves \<open>back\<close> down until it meets \<open>front\<close> or a
  character that is no blank. When \<open>back\<close> starts below \<open>front\<close> it never meets it and
  ends up in front of the buffer.
\<close>

function consume_backwards_whitespace :: "string \<Rightarrow> int \<Rightarrow> int \<Rightarrow> exn + int" where
  "consume_backwards_whitespace s back front =
     (if back \<noteq> front then
        (if back < 0 then Inl undefined_behaviour
         else if is_space (deref s (nat back)) then consume_backwards_whitespace s (back - 1) front
         else Inr back)
      else Inr back)"
  by pat_completeness auto
termination
  by (relation "measure (\<lambda>(s, back, front). nat (back + 1))") auto

declare consume_backwards_whitespace.simps [simp del]

definition eol_or_comment :: "parser \<Rightarrow> nat \<Rightarrow> exn + unit" where
  "eol_or_comment p it =
     (if it < length (line p) \<and> line p ! it \<noteq> CHR ''#'' then
        Inl (throw_parse_exception p
               (''Unidentified trailing character '' @ [line p ! it]
                @ ''---did you forget a '' @ [CHR 0x27, CHR ''#'', CHR 0x27, CHR ''?'']))
      else Inr ())"

definition is_number :: "char \<Rightarrow> bool" where
  "is_number c = (48 \<le> (of_char c :: nat) \<and> (of_char c :: nat) \<le> 57)"

subsection \<open>Strings and keys\<close>

definition parse_escape_code :: "parser \<Rightarrow> nat \<Rightarrow> exn + char \<times> nat" where
  "parse_escape_code p it0 =
     (let it = it0 + 1 in
      if \<not> it < length (line p) then Inl (throw_parse_exception p ''Invalid escape sequence'')
      else
        let c = line p ! it in
        if c = CHR ''b'' then Inr (CHR 0x08, it + 1)
        else if c = CHR ''t'' then Inr (CHR 0x09, it + 1)
        else if c = CHR ''n'' then Inr (CHR 0x0A, it + 1)
        else if c = CHR ''f'' then Inr (CHR 0x0C, it + 1)
        else if c = CHR ''r'' then Inr (CHR 0x0D, it + 1)
        else if c = CHR 0x22 then Inr (CHR 0x22, it + 1)
        else if c = CHR ''/'' then Inr (CHR ''/'', it + 1)
        else if c = CHR 0x5C then Inr (CHR 0x5C, it + 1)
        else Inl (throw_parse_exception p ''Invalid escape sequence''))"

lemma parse_escape_code_advances:
  "parse_escape_code p it = Inr (c, it') \<Longrightarrow> it' = it + 2 \<and> it + 1 < length (line p)"
  by (auto simp: parse_escape_code_def Let_def split: if_splits)

text \<open>The \<open>while\<close> loop of \<open>string_literal\<close>, with \<open>val\<close> as accumulator.\<close>

function string_literal_loop :: "parser \<Rightarrow> nat \<Rightarrow> string \<Rightarrow> exn + string \<times> nat" where
  "string_literal_loop p it val =
     (if it < length (line p) then
        (if line p ! it = CHR 0x5C then
           (case parse_escape_code p it of
              Inl e \<Rightarrow> Inl e
            | Inr (c, it') \<Rightarrow> string_literal_loop p it' (val @ [c]))
         else if line p ! it = CHR 0x22 then
           Inr (val, consume_whitespace (line p) (it + 1))
         else string_literal_loop p (it + 1) (val @ [line p ! it]))
      else Inl (throw_parse_exception p ''Unterminated string literal''))"
  by pat_completeness auto
termination
  by (relation "measure (\<lambda>(p, it, val). length (line p) - it)")
     (auto dest!: parse_escape_code_advances)

declare string_literal_loop.simps [simp del]

definition string_literal :: "parser \<Rightarrow> nat \<Rightarrow> exn + string \<times> nat" where
  "string_literal p it = string_literal_loop p (it + 1) []"

definition parse_quoted_key :: "parser \<Rightarrow> nat \<Rightarrow> exn + string \<times> nat" where
  "parse_quoted_key p it = string_literal p it"

text \<open>
  \<open>parse_bare_key\<close>. \<open>key_end\<close> starts one position before the \<open>=\<close> sign, which is
  below \<open>it\<close> when the \<open>=\<close> sign is the first character of the key; an integer keeps
  that. A key from \<open>it\<close> to a \<open>key_end\<close> below it is no string.
\<close>

definition parse_bare_key :: "parser \<Rightarrow> nat \<Rightarrow> exn + string \<times> nat" where
  "parse_bare_key p it =
     (let s = line p;
          eq = std_find (CHR ''='') s it (length s)
      in case consume_backwards_whitespace s (int eq - 1) (int it) of
           Inl e \<Rightarrow> Inl e
         | Inr back \<Rightarrow>
             if back + 1 < int it then Inl undefined_behaviour
             else
               let key_end = nat (back + 1);
                   key = str_range s it key_end
               in if std_find (CHR ''#'') s it key_end \<noteq> key_end then
                    Inl (throw_parse_exception p (''Key '' @ key @ '' cannot contain #''))
                  else if find_if is_space s it key_end \<noteq> key_end then
                    Inl (throw_parse_exception p (''Key '' @ key @ '' cannot contain whitespace''))
                  else Inr (key, consume_whitespace s eq))"

definition parse_key :: "parser \<Rightarrow> nat \<Rightarrow> exn + string \<times> nat" where
  "parse_key p it0 =
     (let it = consume_whitespace (line p) it0 in
      if deref (line p) it = CHR 0x22 then parse_quoted_key p it else parse_bare_key p it)"

subsection \<open>Scalar values\<close>

text \<open>\<open>enum class parse_type\<close>; \<open>INT\<close> is written \<open>INT_t\<close>.\<close>

datatype parse_type = STRING | DATE | INT_t | FLOAT | BOOL | ARRAY

text \<open>The value of a string of decimal digits.\<close>

definition decimal :: "string \<Rightarrow> nat" where
  "decimal ds = foldl (\<lambda>n c. 10 * n + (of_char c - 48)) 0 ds"

text \<open>
  \<open>std::stoll\<close> and \<open>std::stoi\<close> on the strings the parser hands them, which start with
  a digit or a minus sign: an optional minus sign, then the longest run of digits. No
  digit is \<open>std::invalid_argument\<close>, a value outside the result type is
  \<open>std::out_of_range\<close>.
\<close>

definition sto :: "string \<Rightarrow> int \<Rightarrow> int \<Rightarrow> string \<Rightarrow> exn + int" where
  "sto name lo hi v =
     (let neg = (v \<noteq> [] \<and> hd v = CHR ''-'');
          ds = takeWhile is_number (if neg then tl v else v);
          n = (if neg then - int (decimal ds) else int (decimal ds))
      in if ds = [] then Inl (invalid_argument name)
         else if n < lo \<or> hi < n then Inl (out_of_range name)
         else Inr n)"

definition stoll :: "string \<Rightarrow> exn + 64 word" where
  "stoll v =
     (case sto ''stoll'' (- (2 ^ 63)) (2 ^ 63 - 1) v of
        Inl e \<Rightarrow> Inl e
      | Inr n \<Rightarrow> Inr (word_of_int n))"

definition stoi :: "string \<Rightarrow> exn + int" where
  "stoi v = sto ''stoi'' (- (2 ^ 31)) (2 ^ 31 - 1) v"

text \<open>
  The regular expression of \<open>is_date\<close> and \<open>parse_date\<close> is a sequence of \<open>\d\<close> and of
  literal characters; \<open>std::regex_match\<close> matches the whole string.
\<close>

datatype atom = Digit | Lit char

fun regex_match :: "string \<Rightarrow> atom list \<Rightarrow> bool" where
  "regex_match [] [] = True"
| "regex_match (c # cs) (Digit # as) = (is_number c \<and> regex_match cs as)"
| "regex_match (c # cs) (Lit x # as) = (c = x \<and> regex_match cs as)"
| "regex_match _ _ = False"

definition pattern :: "atom list" where
  "pattern =
     [Digit, Digit, Digit, Digit, Lit (CHR ''-''), Digit, Digit, Lit (CHR ''-''), Digit, Digit,
      Lit (CHR ''T''), Digit, Digit, Lit (CHR '':''), Digit, Digit, Lit (CHR '':''),
      Digit, Digit, Lit (CHR ''Z'')]"

text \<open>
  \<open>results[i]\<close>: the text of the \<open>i\<close>-th group of \<open>pattern\<close> when the string matched,
  the empty string when it did not.
\<close>

definition results :: "string \<Rightarrow> nat \<Rightarrow> string" where
  "results to_match i =
     (if \<not> regex_match to_match pattern then []
      else if i = 1 then str_range to_match 0 4
      else if i = 2 then str_range to_match 5 7
      else if i = 3 then str_range to_match 8 10
      else if i = 4 then str_range to_match 11 13
      else if i = 5 then str_range to_match 14 16
      else if i = 6 then str_range to_match 17 19
      else [])"

text \<open>
  \<open>std::sscanf\<close> for a format of \<open>%d\<close> conversions and literal characters: the list of
  the integers it converted before the first mismatch; its return value is the length
  of that list. \<open>%d\<close> skips white space, reads an optional sign and at least one digit.
\<close>

datatype directive = Conv_d | Literal char

definition isspace :: "char \<Rightarrow> bool" where
  "isspace c = (c \<in> set [CHR '' '', CHR 0x09, CHR 0x0A, CHR 0x0B, CHR 0x0C, CHR 0x0D])"

definition scan_d :: "string \<Rightarrow> (int \<times> string) option" where
  "scan_d s0 =
     (let s = dropWhile isspace s0;
          neg = (s \<noteq> [] \<and> hd s = CHR ''-'');
          s = (if s \<noteq> [] \<and> (hd s = CHR ''-'' \<or> hd s = CHR ''+'') then tl s else s);
          ds = takeWhile is_number s
      in if ds = [] then None
         else Some (if neg then - int (decimal ds) else int (decimal ds), dropWhile is_number s))"

fun sscanf :: "string \<Rightarrow> directive list \<Rightarrow> int list" where
  "sscanf s [] = []"
| "sscanf s (Conv_d # ds) =
     (case scan_d s of None \<Rightarrow> [] | Some (n, rest) \<Rightarrow> n # sscanf rest ds)"
| "sscanf s (Literal c # ds) =
     (case s of [] \<Rightarrow> [] | x # xs \<Rightarrow> if x = c then sscanf xs ds else [])"

definition date_format :: "directive list" where
  "date_format =
     [Conv_d, Literal (CHR ''-''), Conv_d, Literal (CHR ''-''), Conv_d, Literal (CHR ''T''),
      Conv_d, Literal (CHR '':''), Conv_d, Literal (CHR '':''), Conv_d, Literal (CHR ''Z'')]"

definition date_char :: "char \<Rightarrow> bool" where
  "date_char c =
     (is_number c \<or> c = CHR ''T'' \<or> c = CHR ''Z'' \<or> c = CHR '':'' \<or> c = CHR ''-'')"

definition is_date :: "platform \<Rightarrow> string \<Rightarrow> nat \<Rightarrow> nat \<Rightarrow> bool" where
  "is_date c s it e =
     (let date_end = find_if (\<lambda>c. \<not> date_char c) s it e;
          to_match = str_range s it date_end
      in if CPPTOML_HAS_STD_REGEX c then regex_match to_match pattern
         else length to_match = 20 \<and> to_match ! 4 = CHR ''-'' \<and> to_match ! 7 = CHR ''-''
              \<and> to_match ! 10 = CHR ''T'' \<and> to_match ! 13 = CHR '':''
              \<and> to_match ! 16 = CHR '':'' \<and> to_match ! 19 = CHR ''Z''
              \<and> length (sscanf to_match date_format) = 6)"

definition make_tm :: "int \<Rightarrow> int \<Rightarrow> int \<Rightarrow> int \<Rightarrow> int \<Rightarrow> int \<Rightarrow> tm" where
  "make_tm year month day hour minute sec =
     \<lparr>tm_year = year - 1900, tm_mon = month - 1, tm_mday = day,
      tm_hour = hour, tm_min = minute, tm_sec = sec\<rparr>"

text \<open>
  \<open>parse_date\<close>. Without the regex, fields that \<open>sscanf\<close> did not convert stay
  uninitialised, and reading them has no defined result.
\<close>

definition parse_date :: "platform \<Rightarrow> parser \<Rightarrow> nat \<Rightarrow> exn + base \<times> nat" where
  "parse_date c p it =
     (let s = line p;
          date_end = find_if (\<lambda>c. \<not> date_char c) s it (length s);
          to_match = str_range s it date_end
      in if CPPTOML_HAS_STD_REGEX c then
           (case stoi (results to_match 1) of Inl e \<Rightarrow> Inl e | Inr year \<Rightarrow>
            case stoi (results to_match 2) of Inl e \<Rightarrow> Inl e | Inr month \<Rightarrow>
            case stoi (results to_match 3) of Inl e \<Rightarrow> Inl e | Inr day \<Rightarrow>
            case stoi (results to_match 4) of Inl e \<Rightarrow> Inl e | Inr hour \<Rightarrow>
            case stoi (results to_match 5) of Inl e \<Rightarrow> Inl e | Inr minute \<Rightarrow>
            case stoi (results to_match 6) of Inl e \<Rightarrow> Inl e | Inr sec \<Rightarrow>
              Inr (Value (Date (make_tm year month day hour minute sec)), date_end))
         else
           (case sscanf to_match date_format of
              [year, month, day, hour, minute, sec] \<Rightarrow>
                Inr (Value (Date (make_tm year month day hour minute sec)), date_end)
            | _ \<Rightarrow> Inl undefined_behaviour))"

text \<open>The loop \<open>while (check_it != end && is_number(*check_it)) ++check_it\<close>.\<close>

function while_number :: "string \<Rightarrow> nat \<Rightarrow> nat \<Rightarrow> nat" where
  "while_number s check_it e =
     (if check_it < e \<and> is_number (s ! check_it) then while_number s (Suc check_it) e
      else check_it)"
  by pat_completeness auto
termination
  by (relation "measure (\<lambda>(s, check_it, e). e - check_it)") auto

declare while_number.simps [simp del]

definition determine_number_type :: "string \<Rightarrow> nat \<Rightarrow> nat \<Rightarrow> parse_type" where
  "determine_number_type s it e =
     (let check_it = (if deref s it = CHR ''-'' then it + 1 else it);
          check_it = while_number s check_it e
      in if check_it < e \<and> s ! check_it = CHR ''.'' then FLOAT else INT_t)"

definition determine_value_type :: "platform \<Rightarrow> parser \<Rightarrow> nat \<Rightarrow> nat \<Rightarrow> exn + parse_type" where
  "determine_value_type c p it e =
     (let s = line p in
      if deref s it = CHR 0x22 then Inr STRING
      else if is_date c s it e then Inr DATE
      else if is_number (deref s it) \<or> deref s it = CHR ''-'' then
        Inr (determine_number_type s it e)
      else if deref s it = CHR ''t'' \<or> deref s it = CHR ''f'' then Inr BOOL
      else if deref s it = CHR ''['' then Inr ARRAY
      else Inl (throw_parse_exception p ''Failed to parse value type''))"

definition parse_string :: "parser \<Rightarrow> nat \<Rightarrow> exn + base \<times> nat" where
  "parse_string p it =
     (case string_literal p it of
        Inl e \<Rightarrow> Inl e
      | Inr (val, it') \<Rightarrow> Inr (Value (String val), it'))"

definition parse_int :: "string \<Rightarrow> nat \<Rightarrow> nat \<Rightarrow> exn + base \<times> nat" where
  "parse_int s it e =
     (case stoll (str_range s it e) of
        Inl ex \<Rightarrow> Inl ex
      | Inr n \<Rightarrow> Inr (Value (Int64 n), e))"

definition parse_float :: "platform \<Rightarrow> string \<Rightarrow> nat \<Rightarrow> nat \<Rightarrow> exn + base \<times> nat" where
  "parse_float c s it e =
     (case stod c (str_range s it e) of
        Inl ex \<Rightarrow> Inl ex
      | Inr x \<Rightarrow> Inr (Value (Double x), e))"

definition parse_number :: "platform \<Rightarrow> parser \<Rightarrow> nat \<Rightarrow> exn + base \<times> nat" where
  "parse_number c p it =
     (let s = line p;
          check_it = (if deref s it = CHR ''-'' then it + 1 else it);
          check_it = while_number s check_it (length s)
      in if check_it < length s \<and> s ! check_it = CHR ''.'' then
           (let check_it = check_it + 1 in
            if \<not> check_it < length s then
              Inl (throw_parse_exception p ''Floats must have trailing digits'')
            else parse_float c s it (while_number s check_it (length s)))
         else parse_int s it check_it)"

definition parse_bool :: "parser \<Rightarrow> nat \<Rightarrow> exn + base \<times> nat" where
  "parse_bool p it =
     (let s = line p;
          boolend = find_if (\<lambda>c. c = CHR '' '' \<or> c = CHR 0x09 \<or> c = CHR ''#'') s it (length s);
          v = str_range s it boolend
      in if v = ''true'' then Inr (Value (Bool True), boolend)
         else if v = ''false'' then Inr (Value (Bool False), boolend)
         else Inl (throw_parse_exception p ''Attempted to parse invalid boolean value''))"

text \<open>
  \<open>skip_whitespace_and_comments\<close> reads further lines while the position is at the end
  of the line or at a comment.
\<close>

lemma getline_shorter: "getline s = Some (l, rest) \<Longrightarrow> length rest < length s"
proof -
  assume a: "getline s = Some (l, rest)"
  then have ne: "s \<noteq> []" and r: "rest = drop 1 (dropWhile (\<lambda>c. c \<noteq> CHR 0x0A) s)"
    by (auto simp: getline_def split: if_splits)
  have "length (dropWhile (\<lambda>c. c \<noteq> CHR 0x0A) s) \<le> length s"
    by (rule length_dropWhile_le)
  then show ?thesis using ne r by (cases "dropWhile (\<lambda>c. c \<noteq> CHR 0x0A) s") auto
qed

lemma next_line_shorter: "next_line p = Some p' \<Longrightarrow> length (input p') < length (input p)"
  by (auto simp: next_line_def dest: getline_shorter split: option.splits)

function skip_loop :: "parser \<Rightarrow> nat \<Rightarrow> exn + parser \<times> nat" where
  "skip_loop p start =
     (if \<not> start < length (line p) \<or> line p ! start = CHR ''#'' then
        (case next_line p of
           None \<Rightarrow> Inl (throw_parse_exception p ''Unclosed array'')
         | Some p' \<Rightarrow> skip_loop p' (consume_whitespace (line p') 0))
      else Inr (p, start))"
  by pat_completeness auto
termination
  by (relation "measure (\<lambda>(p, start). length (input p))") (auto dest: next_line_shorter)

declare skip_loop.simps [simp del]

definition skip_whitespace_and_comments :: "parser \<Rightarrow> nat \<Rightarrow> exn + parser \<times> nat" where
  "skip_whitespace_and_comments p start = skip_loop p (consume_whitespace (line p) start)"

subsection \<open>Values and arrays\<close>

text \<open>
  What both array loops do after an element: skip to the next token, leave the loop
  (\<open>False\<close>) unless it is a comma, step over the comma and skip again.
\<close>

definition array_next :: "parser \<Rightarrow> nat \<Rightarrow> exn + bool \<times> parser \<times> nat" where
  "array_next p it =
     (case skip_whitespace_and_comments p it of
        Inl e \<Rightarrow> Inl e
      | Inr (p1, it1) \<Rightarrow>
          if deref (line p1) it1 \<noteq> CHR '','' then Inr (False, p1, it1)
          else (case skip_whitespace_and_comments p1 (it1 + 1) of
                  Inl e \<Rightarrow> Inl e
                | Inr (p2, it2) \<Rightarrow> Inr (True, p2, it2)))"

text \<open>The \<open>if (it != end) ++it\<close> behind both array loops.\<close>

definition array_close :: "parser \<Rightarrow> nat \<Rightarrow> nat" where
  "array_close p it = (if it < length (line p) then it + 1 else it)"

text \<open>The scalar parsers leave the members of the parser alone.\<close>

definition lift_value :: "parser \<Rightarrow> exn + base \<times> nat \<Rightarrow> exn + base \<times> parser \<times> nat" where
  "lift_value p r = (case r of Inl e \<Rightarrow> Inl e | Inr (v, it) \<Rightarrow> Inr (v, p, it))"

text \<open>
  \<open>parse_value\<close>, \<open>parse_array\<close> and the two array loops, \<open>parse_value_array<T>\<close> and
  \<open>parse_nested_array\<close>, with the array \<open>arr\<close> as accumulator.
\<close>

function
    parse_value :: "platform \<Rightarrow> parser \<Rightarrow> nat \<Rightarrow> exn + base \<times> parser \<times> nat"
and parse_array :: "platform \<Rightarrow> parser \<Rightarrow> nat \<Rightarrow> exn + base \<times> parser \<times> nat"
and parse_value_array ::
      "platform \<Rightarrow> value_type \<Rightarrow> parser \<Rightarrow> nat \<Rightarrow> base list \<Rightarrow> exn + base \<times> parser \<times> nat"
and parse_nested_array ::
      "platform \<Rightarrow> parser \<Rightarrow> nat \<Rightarrow> base list \<Rightarrow> exn + base \<times> parser \<times> nat"
where
  "parse_value c p it =
     (case determine_value_type c p it (length (line p)) of
        Inl e \<Rightarrow> Inl e
      | Inr STRING \<Rightarrow> lift_value p (parse_string p it)
      | Inr DATE \<Rightarrow> lift_value p (parse_date c p it)
      | Inr INT_t \<Rightarrow> lift_value p (parse_number c p it)
      | Inr FLOAT \<Rightarrow> lift_value p (parse_number c p it)
      | Inr BOOL \<Rightarrow> lift_value p (parse_bool p it)
      | Inr ARRAY \<Rightarrow> parse_array c p it)"
| "parse_array c p it0 =
     (case skip_whitespace_and_comments p (it0 + 1) of
        Inl e \<Rightarrow> Inl e
      | Inr (p1, it) \<Rightarrow>
          if deref (line p1) it = CHR '']'' then Inr (Array [], p1, it + 1)
          else
            let val_end = find_if (\<lambda>c. c = CHR '','' \<or> c = CHR '']'' \<or> c = CHR ''#'')
                            (line p1) it (length (line p1))
            in (case determine_value_type c p1 it val_end of
                  Inl e \<Rightarrow> Inl e
                | Inr STRING \<Rightarrow> parse_value_array c T_string p1 it []
                | Inr INT_t \<Rightarrow> parse_value_array c T_int64 p1 it []
                | Inr FLOAT \<Rightarrow> parse_value_array c T_double p1 it []
                | Inr DATE \<Rightarrow> parse_value_array c T_tm p1 it []
                | Inr ARRAY \<Rightarrow> parse_nested_array c p1 it []
                | Inr BOOL \<Rightarrow> Inl (throw_parse_exception p1 ''Unable to parse array'')))"
| "parse_value_array c T p it arr =
     (if it < length (line p) \<and> line p ! it \<noteq> CHR '']'' then
        (case parse_value c p it of
           Inl e \<Rightarrow> Inl e
         | Inr (v, p1, it1) \<Rightarrow>
             (case as_value T v of
                None \<Rightarrow> Inl (throw_parse_exception p1 ''Arrays must be heterogeneous'')
              | Some _ \<Rightarrow>
                  (case array_next p1 it1 of
                     Inl e \<Rightarrow> Inl e
                   | Inr (False, p2, it2) \<Rightarrow> Inr (Array (arr @ [v]), p2, array_close p2 it2)
                   | Inr (True, p2, it2) \<Rightarrow> parse_value_array c T p2 it2 (arr @ [v]))))
      else Inr (Array arr, p, array_close p it))"
| "parse_nested_array c p it arr =
     (if it < length (line p) \<and> line p ! it \<noteq> CHR '']'' then
        (case parse_array c p it of
           Inl e \<Rightarrow> Inl e
         | Inr (v, p1, it1) \<Rightarrow>
             (case array_next p1 it1 of
                Inl e \<Rightarrow> Inl e
              | Inr (False, p2, it2) \<Rightarrow> Inr (Array (arr @ [v]), p2, array_close p2 it2)
              | Inr (True, p2, it2) \<Rightarrow> parse_nested_array c p2 it2 (arr @ [v])))
      else Inr (Array arr, p, array_close p it))"
  by pat_completeness auto


text \<open>
  Termination: the characters left in the line count once, those left in the stream
  twice, so that reading a line never increases the count.
\<close>

definition remaining :: "parser \<Rightarrow> nat \<Rightarrow> nat" where
  "remaining p it = 2 * length (input p) + (length (line p) - it)"

lemma consume_whitespace_ge: "it \<le> consume_whitespace s it"
proof (induction s it rule: consume_whitespace.induct)
  case (1 s it)
  then show ?case by (subst consume_whitespace.simps) auto
qed

lemma find_if_bounds: "b \<le> e \<Longrightarrow> b \<le> find_if P s b e \<and> find_if P s b e \<le> e"
proof (induction P s b e rule: find_if.induct)
  case (1 P s b e)
  then show ?case by (subst (1 2) find_if.simps) auto
qed

lemma find_if_beyond: "\<not> b < e \<Longrightarrow> find_if P s b e = e"
  by (subst find_if.simps) simp

lemma while_number_ge: "k \<le> while_number s k e"
proof (induction s k e rule: while_number.induct)
  case (1 s k e)
  then show ?case by (subst while_number.simps) auto
qed

lemma getline_weight:
  assumes "getline s = Some (l, rest)"
  shows "length l + 2 * length rest < 2 * length s"
proof -
  let ?d = "dropWhile (\<lambda>c. c \<noteq> CHR 0x0A) s"
  from assms have ne: "s \<noteq> []" and l: "l = takeWhile (\<lambda>c. c \<noteq> CHR 0x0A) s" and r: "rest = drop 1 ?d"
    by (auto simp: getline_def split: if_splits)
  have "length l + length ?d = length s"
    unfolding l by (metis length_append takeWhile_dropWhile_id)
  then show ?thesis using ne r by (cases ?d) auto
qed

lemma next_line_remaining:
  "next_line p = Some p' \<Longrightarrow> remaining p' 0 < 2 * length (input p)"
  by (auto simp: next_line_def remaining_def dest!: getline_weight split: option.splits)

lemma skip_loop_remaining:
  "skip_loop p start = Inr (p', it') \<Longrightarrow> remaining p' it' \<le> remaining p start \<and> it' < length (line p')"
proof (induction p start arbitrary: p' it' rule: skip_loop.induct)
  case (1 p start)
  show ?case
  proof (cases "\<not> start < length (line p) \<or> line p ! start = CHR ''#''")
    case True
    with "1.prems" obtain q where q: "next_line p = Some q"
      and r: "skip_loop q (consume_whitespace (line q) 0) = Inr (p', it')"
      by (subst (asm) skip_loop.simps) (auto split: option.splits)
    from "1.IH"[OF True q r] have a: "remaining p' it' \<le> remaining q (consume_whitespace (line q) 0)"
      and b: "it' < length (line p')" by auto
    have "remaining q (consume_whitespace (line q) 0) \<le> remaining q 0"
      using consume_whitespace_ge[of 0 "line q"] by (simp add: remaining_def)
    also have "\<dots> < 2 * length (input p)" by (rule next_line_remaining[OF q])
    also have "\<dots> \<le> remaining p start" by (simp add: remaining_def)
    finally show ?thesis using a b by simp
  next
    case False
    with "1.prems" show ?thesis by (subst (asm) skip_loop.simps) auto
  qed
qed

lemma skip_remaining:
  "skip_whitespace_and_comments p it = Inr (p', it') \<Longrightarrow>
   remaining p' it' \<le> remaining p it \<and> it' < length (line p')"
  unfolding skip_whitespace_and_comments_def
  using consume_whitespace_ge[of it "line p"]
  by (auto dest!: skip_loop_remaining simp: remaining_def)

lemma remaining_Suc: "it < length (line p) \<Longrightarrow> remaining p (it + 1) < remaining p it"
  by (simp add: remaining_def)

lemma remaining_Suc_le: "remaining p (it + 1) \<le> remaining p it"
  by (simp add: remaining_def)

lemma array_next_remaining:
  assumes "array_next p it = Inr (b, p', it')"
  shows "remaining p' it' \<le> remaining p it" and "b \<Longrightarrow> remaining p' it' < remaining p it"
proof -
  from assms obtain p1 it1 where s1: "skip_whitespace_and_comments p it = Inr (p1, it1)"
    by (auto simp: array_next_def split: sum.splits)
  note r1 = skip_remaining[OF s1]
  show "remaining p' it' \<le> remaining p it"
    using assms s1 r1 remaining_Suc_le[of p1 it1]
    by (auto simp: array_next_def split: sum.splits if_splits dest!: skip_remaining)
  show "remaining p' it' < remaining p it" if b
    using that assms s1 r1 remaining_Suc[of it1 p1]
    by (auto simp: array_next_def split: sum.splits if_splits dest!: skip_remaining)
qed


lemma string_literal_loop_ge:
  "string_literal_loop p it val = Inr (r, it') \<Longrightarrow> it \<le> it'"
proof (induction p it val arbitrary: r it' rule: string_literal_loop.induct)
  case (1 p it val)
  note prem = "1.prems"[unfolded string_literal_loop.simps[of p it val]]
  show ?case
  proof (cases "it < length (line p)")
    case False
    with prem show ?thesis by simp
  next
    case lt: True
    consider (esc) "line p ! it = CHR 0x5C" | (quote) "line p ! it \<noteq> CHR 0x5C" "line p ! it = CHR 0x22"
      | (other) "line p ! it \<noteq> CHR 0x5C" "line p ! it \<noteq> CHR 0x22" by blast
    then show ?thesis
    proof cases
      case esc
      with prem lt obtain c k where e: "parse_escape_code p it = Inr (c, k)"
        and l: "string_literal_loop p k (val @ [c]) = Inr (r, it')"
        by (auto split: sum.splits)
      from "1.IH"(1)[OF lt esc e refl l] parse_escape_code_advances[OF e] show ?thesis by simp
    next
      case quote
      with prem lt have "it' = consume_whitespace (line p) (it + 1)" by simp
      then show ?thesis using consume_whitespace_ge[of "it + 1" "line p"] by simp
    next
      case other
      with prem lt have "string_literal_loop p (it + 1) (val @ [line p ! it]) = Inr (r, it')" by simp
      from "1.IH"(2)[OF lt other this] show ?thesis by simp
    qed
  qed
qed

lemma parse_string_remaining:
  "parse_string p it = Inr (v, it') \<Longrightarrow> length (line p) - it' \<le> length (line p) - it"
  by (auto simp: parse_string_def string_literal_def split: sum.splits
           dest!: string_literal_loop_ge)

lemma parse_date_remaining:
  "parse_date c p it = Inr (v, it') \<Longrightarrow> length (line p) - it' \<le> length (line p) - it"
proof -
  assume a: "parse_date c p it = Inr (v, it')"
  have "it' = find_if (\<lambda>c. \<not> date_char c) (line p) it (length (line p))"
    using a by (auto simp: parse_date_def Let_def split: if_splits sum.splits list.splits)
  then show ?thesis
    using find_if_bounds[of it "length (line p)" "\<lambda>c. \<not> date_char c" "line p"]
          find_if_beyond[of it "length (line p)" "\<lambda>c. \<not> date_char c" "line p"]
    by (cases "it \<le> length (line p)") auto
qed

lemma parse_number_remaining:
  "parse_number c p it = Inr (v, it') \<Longrightarrow> length (line p) - it' \<le> length (line p) - it"
proof -
  assume a: "parse_number c p it = Inr (v, it')"
  define k where "k = (if deref (line p) it = CHR ''-'' then it + 1 else it)"
  define w where "w = while_number (line p) k (length (line p))"
  have kw: "it \<le> k" "k \<le> w" using while_number_ge[of k "line p" "length (line p)"]
    by (auto simp: k_def w_def)
  have "it' = w \<or> it' = while_number (line p) (w + 1) (length (line p))"
    using a unfolding parse_number_def parse_int_def parse_float_def Let_def k_def[symmetric] w_def[symmetric]
    by (auto split: if_splits sum.splits)
  then have "it \<le> it'"
    using kw while_number_ge[of "w + 1" "line p" "length (line p)"] by auto
  then show ?thesis by simp
qed

lemma parse_bool_remaining:
  "parse_bool p it = Inr (v, it') \<Longrightarrow> length (line p) - it' \<le> length (line p) - it"
proof -
  let ?P = "\<lambda>c. c = CHR '' '' \<or> c = CHR 0x09 \<or> c = CHR ''#''"
  assume a: "parse_bool p it = Inr (v, it')"
  have "it' = find_if ?P (line p) it (length (line p))"
    using a by (auto simp: parse_bool_def Let_def split: if_splits)
  then show ?thesis
    using find_if_bounds[of it "length (line p)" ?P "line p"]
          find_if_beyond[of it "length (line p)" ?P "line p"]
    by (cases "it \<le> length (line p)") auto
qed

lemma lift_value_remaining:
  assumes "lift_value p r = Inr (v, p', it')"
    and "\<And>v it'. r = Inr (v, it') \<Longrightarrow> length (line p) - it' \<le> length (line p) - it"
  shows "remaining p' it' \<le> remaining p it"
  using assms by (auto simp: lift_value_def remaining_def split: sum.splits)

lemma array_type_in_line:
  "determine_value_type c p it e = Inr ARRAY \<Longrightarrow> it < length (line p)"
  by (auto simp: determine_value_type_def deref_def Let_def determine_number_type_def
           split: if_splits)

lemma array_close_remaining: "remaining p (array_close p it) \<le> remaining p it"
  by (auto simp: array_close_def remaining_def)

abbreviation "pdom \<equiv> parse_value_parse_array_parse_value_array_parse_nested_array_dom"

lemma remaining_dom:
  shows "pdom (Inl (Inl (c, p, it))) \<Longrightarrow>
           (\<forall>v p' it'. parse_value c p it = Inr (v, p', it') \<longrightarrow> remaining p' it' \<le> remaining p it)"
    and "pdom (Inl (Inr (c, p, it))) \<Longrightarrow>
           (\<forall>v p' it'. parse_array c p it = Inr (v, p', it') \<longrightarrow> remaining p' it' \<le> remaining p (it + 1))"
    and "pdom (Inr (Inl (c, T, p, it, arr))) \<Longrightarrow>
           (\<forall>v p' it'. parse_value_array c T p it arr = Inr (v, p', it') \<longrightarrow> remaining p' it' \<le> remaining p it)"
    and "pdom (Inr (Inr (c, p, it, arr))) \<Longrightarrow>
           (\<forall>v p' it'. parse_nested_array c p it arr = Inr (v, p', it') \<longrightarrow> remaining p' it' \<le> remaining p it)"
proof (induct rule: parse_value_parse_array_parse_value_array_parse_nested_array.pinduct)
  case (1 c p it)
  note ps = parse_value.psimps[OF "1.hyps"(1)]
  show ?case
  proof (intro allI impI)
    fix v p' it'
    assume r: "parse_value c p it = Inr (v, p', it')"
    then obtain t where t: "determine_value_type c p it (length (line p)) = Inr t"
      by (auto simp: ps split: sum.splits)
    show "remaining p' it' \<le> remaining p it"
    proof (cases t)
      case ARRAY
      with r t have "parse_array c p it = Inr (v, p', it')" by (simp add: ps)
      with "1.hyps"(2)[OF t ARRAY] have "remaining p' it' \<le> remaining p (it + 1)" by blast
      then show ?thesis using remaining_Suc_le[of p it] by simp
    qed (use r t in \<open>auto simp: ps elim!: lift_value_remaining
            dest: parse_string_remaining parse_date_remaining parse_number_remaining
                  parse_bool_remaining\<close>)
  qed
next
  case (2 c p it0)
  note ps = parse_array.psimps[OF "2.hyps"(1)]
  show ?case
  proof (intro allI impI)
    fix v p' it'
    assume r: "parse_array c p it0 = Inr (v, p', it')"
    then obtain p1 it where s: "skip_whitespace_and_comments p (it0 + 1) = Inr (p1, it)"
      by (auto simp: ps split: sum.splits)
    note sr = skip_remaining[OF s]
    show "remaining p' it' \<le> remaining p (it0 + 1)"
    proof (cases "deref (line p1) it = CHR '']''")
      case True
      with r s have "p' = p1" "it' = it + 1" by (auto simp: ps)
      then show ?thesis using sr remaining_Suc_le[of p1 it] by simp
    next
      case False
      let ?e = "find_if (\<lambda>c. c = CHR '','' \<or> c = CHR '']'' \<or> c = CHR ''#'')
                            (line p1) it (length (line p1))"
      from r s False obtain t where t: "determine_value_type c p1 it ?e = Inr t"
        by (auto simp: ps split: sum.splits)
      have "remaining p' it' \<le> remaining p1 it"
        using r s False t "2.hyps"(2-6)[OF s refl False refl t]
        by (cases t) (auto simp: ps)
      then show ?thesis using sr by simp
    qed
  qed
next
  case (3 c T p it arr)
  note ps = parse_value_array.psimps[OF "3.hyps"(1)]
  show ?case
  proof (intro allI impI)
    fix v p' it'
    assume r: "parse_value_array c T p it arr = Inr (v, p', it')"
    show "remaining p' it' \<le> remaining p it"
    proof (cases "it < length (line p) \<and> line p ! it \<noteq> CHR '']''")
      case False
      with r show ?thesis using array_close_remaining[of p it] by (auto simp: ps)
    next
      case True
      with r obtain x p1 it1 where pv: "parse_value c p it = Inr (x, p1, it1)"
        by (auto simp: ps split: sum.splits)
      from "3.hyps"(2)[OF True] pv have r1: "remaining p1 it1 \<le> remaining p it" by blast
      from r True pv obtain x2 where av: "as_value T x = Some x2"
        by (auto simp: ps split: option.splits)
      from r True pv av obtain b p2 it2 where an: "array_next p1 it1 = Inr (b, p2, it2)"
        by (auto simp: ps split: sum.splits)
      note r2 = array_next_remaining(1)[OF an]
      show ?thesis
      proof (cases b)
        case True
        then have bT: "b = True" by simp
        from True r \<open>it < length (line p) \<and> line p ! it \<noteq> CHR '']''\<close> pv av an
        have "parse_value_array c T p2 it2 (arr @ [x]) = Inr (v, p', it')" by (simp add: ps)
        with "3.hyps"(3)[OF \<open>it < length (line p) \<and> line p ! it \<noteq> CHR '']''\<close> pv refl refl av an refl bT refl]
        have "remaining p' it' \<le> remaining p2 it2" by blast
        then show ?thesis using r1 r2 by simp
      next
        case False
        with r \<open>it < length (line p) \<and> line p ! it \<noteq> CHR '']''\<close> pv av an
        have "p' = p2" "it' = array_close p2 it2" by (auto simp: ps)
        then show ?thesis using r1 r2 array_close_remaining[of p2 it2] by simp
      qed
    qed
  qed
next
  case (4 c p it arr)
  note ps = parse_nested_array.psimps[OF "4.hyps"(1)]
  show ?case
  proof (intro allI impI)
    fix v p' it'
    assume r: "parse_nested_array c p it arr = Inr (v, p', it')"
    show "remaining p' it' \<le> remaining p it"
    proof (cases "it < length (line p) \<and> line p ! it \<noteq> CHR '']''")
      case False
      with r show ?thesis using array_close_remaining[of p it] by (auto simp: ps)
    next
      case True
      with r obtain x p1 it1 where pv: "parse_array c p it = Inr (x, p1, it1)"
        by (auto simp: ps split: sum.splits)
      from "4.hyps"(2)[OF True] pv have "remaining p1 it1 \<le> remaining p (it + 1)" by blast
      then have r1: "remaining p1 it1 \<le> remaining p it" using remaining_Suc_le[of p it] by simp
      from r True pv obtain b p2 it2 where an: "array_next p1 it1 = Inr (b, p2, it2)"
        by (auto simp: ps split: sum.splits)
      note r2 = array_next_remaining(1)[OF an]
      show ?thesis
      proof (cases b)
        case True
        then have bT: "b = True" by simp
        from True r \<open>it < length (line p) \<and> line p ! it \<noteq> CHR '']''\<close> pv an
        have "parse_nested_array c p2 it2 (arr @ [x]) = Inr (v, p', it')" by (simp add: ps)
        with "4.hyps"(3)[OF \<open>it < length (line p) \<and> line p ! it \<noteq> CHR '']''\<close> pv refl refl an refl bT refl]
        have "remaining p' it' \<le> remaining p2 it2" by blast
        then show ?thesis using r1 r2 by simp
      next
        case False
        with r \<open>it < length (line p) \<and> line p ! it \<noteq> CHR '']''\<close> pv an
        have "p' = p2" "it' = array_close p2 it2" by (auto simp: ps)
        then show ?thesis using r1 r2 array_close_remaining[of p2 it2] by simp
      qed
    qed
  qed
qed

lemma parse_value_terminates: "All pdom"
proof (relation "measure (\<lambda>x. case x of
          Inl (Inl (c, p, it)) \<Rightarrow> 3 * remaining p it
        | Inl (Inr (c, p, it)) \<Rightarrow> 3 * remaining p (it + 1) + 2
        | Inr (Inl (c, T, p, it, arr)) \<Rightarrow> 3 * remaining p it + 1
        | Inr (Inr (c, p, it, arr)) \<Rightarrow> 3 * remaining p it + 1)", goal_cases)
  case 1
  show ?case by simp
next
  case (2 c p it b)
  then show ?case using remaining_Suc[OF array_type_in_line, of c p it "length (line p)"] by simp
next
  case (3 c p it0 b x y xa ba)
  then show ?case using skip_remaining[of p "it0 + 1" x y] by simp
next
  case (4 c p it0 b x y xa ba)
  then show ?case using skip_remaining[of p "it0 + 1" x y] by simp
next
  case (5 c p it0 b x y xa ba)
  then show ?case using skip_remaining[of p "it0 + 1" x y] by simp
next
  case (6 c p it0 b x y xa ba)
  then show ?case using skip_remaining[of p "it0 + 1" x y] by simp
next
  case (7 c p it0 b x y xa ba)
  then show ?case using skip_remaining[of p "it0 + 1" x y] by simp
next
  case (8 c T p it arr)
  then show ?case by simp
next
  case (9 c T p it arr b x y xa ya x2 ba xaa yb xab yc)
  then show ?case
    using remaining_dom(1)[of c p it] array_next_remaining(2)[of xa ya xaa xab yc]
    by auto
next
  case (10 c p it arr)
  then show ?case using remaining_Suc[of it p] by simp
next
  case (11 c p it arr b x y xa ya ba xaa yb xab yc)
  then show ?case
    using remaining_dom(2)[of c p it] array_next_remaining(2)[of xa ya xaa xab yc]
      remaining_Suc_le[of p it]
    by auto
qed

termination parse_value
  by (rule parse_value_terminates)

lemma parse_value_remaining:
  shows "parse_value c p it = Inr (v, p', it') \<Longrightarrow> remaining p' it' \<le> remaining p it"
    and "parse_array c p it = Inr (v, p', it') \<Longrightarrow> remaining p' it' \<le> remaining p (it + 1)"
  using remaining_dom(1)[of c p it] remaining_dom(2)[of c p it] parse_value_terminates
  by blast+

declare parse_value.simps [simp del] parse_array.simps [simp del]
  parse_value_array.simps [simp del] parse_nested_array.simps [simp del]

subsection \<open>The current table\<close>

text \<open>
  \<open>curr_table\<close> points to the root or to a table the header walk reached from it: the
  model keeps the keys of that walk. Moving into a \<open>table\<close> yields that table, moving
  into a \<open>table_array\<close> yields its \<open>back()\<close>.
\<close>

type_synonym cursor = "string list"

fun points_to :: "base \<Rightarrow> table option" where
  "points_to (Table t) = Some t"
| "points_to (Table_array ts) = (if ts = [] then None else Some (last ts))"
| "points_to (Value _) = None"
| "points_to (Array _) = None"

fun table_at :: "table \<Rightarrow> cursor \<Rightarrow> table option" where
  "table_at root [] = Some root"
| "table_at root (k # ks) =
     (case map_of root k of
        None \<Rightarrow> None
      | Some b \<Rightarrow> (case points_to b of None \<Rightarrow> None | Some t \<Rightarrow> table_at t ks))"

text \<open>Writing the table \<open>t'\<close> through the pointer.\<close>

fun store_at :: "table \<Rightarrow> cursor \<Rightarrow> table \<Rightarrow> table" where
  "store_at root [] t' = t'"
| "store_at root (k # ks) t' =
     (case map_of root k of
        Some (Table t) \<Rightarrow> AList.update k (Table (store_at t ks t')) root
      | Some (Table_array ts) \<Rightarrow>
          if ts = [] then root
          else AList.update k (Table_array (butlast ts @ [store_at (last ts) ks t'])) root
      | _ \<Rightarrow> root)"

subsection \<open>Table headers\<close>

lemma part_nonempty:
  assumes "str_range s it (std_find c s it e) \<noteq> []"
  shows "it < std_find c s it e" and "std_find c s it e \<le> e"
proof -
  from assms have lt: "it < std_find c s it e" by (auto simp: str_range_def)
  then have "it < e"
    using find_if_beyond[of it e "\<lambda>x. x = c" s] by (cases "it < e") (auto simp: std_find_def)
  then show "std_find c s it e \<le> e"
    using find_if_bounds[of it e "\<lambda>x. x = c" s] by (simp add: std_find_def)
  show "it < std_find c s it e" by (rule lt)
qed

text \<open>
  The body of the \<open>while (it != kg_end)\<close> loop of \<open>parse_single_table\<close>. It yields the
  document, the table it arrived at and the iterator.
\<close>

definition single_table_part ::
  "parser \<Rightarrow> nat \<Rightarrow> nat \<Rightarrow> table \<Rightarrow> cursor \<Rightarrow> exn + table \<times> cursor \<times> nat" where
  "single_table_part p kg_end it0 root curr_table =
     (let dot = std_find (CHR ''.'') (line p) it0 kg_end;
          part = str_range (line p) it0 dot
      in if part = [] then Inl (throw_parse_exception p ''Empty keytable part'')
         else
           let it = (if dot \<noteq> kg_end then dot + 1 else dot) in
           (case table_at root curr_table of
              None \<Rightarrow> Inl undefined_behaviour
            | Some t \<Rightarrow>
                if contains t part then
                  (case get t part of
                     Inl e \<Rightarrow> Inl e
                   | Inr b \<Rightarrow>
                       if is_table b then Inr (root, curr_table @ [part], it)
                       else if is_table_array b then
                         (if as_table_array b = Some [] then Inl undefined_behaviour
                          else Inr (root, curr_table @ [part], it))
                       else Inl (throw_parse_exception p ''Keytable already exists as a value''))
                else
                  Inr (store_at root curr_table (insert_table part (Table []) t),
                       curr_table @ [part], it)))"

lemma single_table_part_advances:
  assumes "single_table_part p kg_end it0 root curr_table = Inr (root', curr_table', it)"
  shows "it0 < it \<and> it \<le> kg_end"
  using assms part_nonempty[of "line p" it0 "CHR ''.''" kg_end]
  by (auto simp: single_table_part_def Let_def split: if_splits option.splits sum.splits)

function single_table_loop ::
  "parser \<Rightarrow> nat \<Rightarrow> nat \<Rightarrow> table \<Rightarrow> cursor \<Rightarrow> exn + table \<times> cursor \<times> nat" where
  "single_table_loop p kg_end it root curr_table =
     (if it \<noteq> kg_end then
        (case single_table_part p kg_end it root curr_table of
           Inl e \<Rightarrow> Inl e
         | Inr (root', curr_table', it') \<Rightarrow> single_table_loop p kg_end it' root' curr_table')
      else Inr (root, curr_table, it))"
  by pat_completeness auto
termination
  by (relation "measure (\<lambda>(p, kg_end, it, root, curr_table). kg_end - it)")
     (auto dest!: single_table_part_advances)

declare single_table_loop.simps [simp del]

text \<open>
  \<open>parse_single_table\<close>. The \<open>++it\<close> behind the loop leaves the line when the header has
  no closing bracket, and \<open>consume_whitespace\<close> then reads behind the terminator.
\<close>

definition parse_single_table ::
  "parser \<Rightarrow> nat \<Rightarrow> table \<Rightarrow> cursor \<Rightarrow> exn + parser \<times> table \<times> cursor" where
  "parse_single_table p it root curr_table =
     (let s = line p;
          ob = std_find (CHR ''['') s it (length s)
      in if ob \<noteq> length s then Inl (throw_parse_exception p ''Cannot have [ in table name'')
         else
           let kg_end = std_find (CHR '']'') s it (length s) in
           if it = kg_end then Inl (throw_parse_exception p ''Empty table'')
           else
             let table_name = str_range s it kg_end in
             if table_name \<in> tables p then Inl (throw_parse_exception p ''Duplicate table'')
             else if find_if (\<lambda>c. c = CHR '' '' \<or> c = CHR 0x09) table_name 0 (length table_name)
                       \<noteq> length table_name
             then Inl (parse_exception (''Table name '' @ table_name @ '' cannot have whitespace''))
             else
               let p1 = p\<lparr>tables := insert table_name (tables p)\<rparr> in
               (case single_table_loop p1 kg_end it root curr_table of
                  Inl e \<Rightarrow> Inl e
                | Inr (root1, curr_table1, it1) \<Rightarrow>
                    let it2 = it1 + 1 in
                    if length s < it2 then Inl undefined_behaviour
                    else
                      (case eol_or_comment p1 (consume_whitespace s it2) of
                         Inl e \<Rightarrow> Inl e
                       | Inr _ \<Rightarrow> Inr (p1, root1, curr_table1))))"

text \<open>The body of the \<open>while (it != kg_end)\<close> loop of \<open>parse_table_array\<close>.\<close>

definition table_array_part ::
  "parser \<Rightarrow> nat \<Rightarrow> nat \<Rightarrow> table \<Rightarrow> cursor \<Rightarrow> exn + table \<times> cursor \<times> nat" where
  "table_array_part p kg_end it0 root curr_table =
     (let dot = std_find (CHR ''.'') (line p) it0 kg_end;
          part = str_range (line p) it0 dot
      in if part = [] then Inl (throw_parse_exception p ''Empty keytable part'')
         else
           let it = (if dot \<noteq> kg_end then dot + 1 else dot) in
           (case table_at root curr_table of
              None \<Rightarrow> Inl undefined_behaviour
            | Some t \<Rightarrow>
                if contains t part then
                  (case get t part of
                     Inl e \<Rightarrow> Inl e
                   | Inr b \<Rightarrow>
                       if it = kg_end then
                         (case as_table_array b of
                            None \<Rightarrow> Inl (throw_parse_exception p ''Expected keytable array'')
                          | Some v \<Rightarrow>
                              Inr (store_at root curr_table
                                     (AList.update part (Table_array (v @ [[]])) t),
                                   curr_table @ [part], it))
                       else if is_table b then Inr (root, curr_table @ [part], it)
                       else if is_table_array b then
                         (if as_table_array b = Some [] then Inl undefined_behaviour
                          else Inr (root, curr_table @ [part], it))
                       else Inl (throw_parse_exception p ''Keytable already exists as a value''))
                else if it = kg_end then
                  Inr (store_at root curr_table (insert_table part (Table_array [[]]) t),
                       curr_table @ [part], it)
                else
                  Inr (store_at root curr_table (insert_table part (Table []) t),
                       curr_table @ [part], it)))"

lemma table_array_part_advances:
  assumes "table_array_part p kg_end it0 root curr_table = Inr (root', curr_table', it)"
  shows "it0 < it \<and> it \<le> kg_end"
  using assms part_nonempty[of "line p" it0 "CHR ''.''" kg_end]
  by (auto simp: table_array_part_def Let_def split: if_splits option.splits sum.splits)

function table_array_loop ::
  "parser \<Rightarrow> nat \<Rightarrow> nat \<Rightarrow> table \<Rightarrow> cursor \<Rightarrow> exn + table \<times> cursor \<times> nat" where
  "table_array_loop p kg_end it root curr_table =
     (if it \<noteq> kg_end then
        (case table_array_part p kg_end it root curr_table of
           Inl e \<Rightarrow> Inl e
         | Inr (root', curr_table', it') \<Rightarrow> table_array_loop p kg_end it' root' curr_table')
      else Inr (root, curr_table, it))"
  by pat_completeness auto
termination
  by (relation "measure (\<lambda>(p, kg_end, it, root, curr_table). kg_end - it)")
     (auto dest!: table_array_part_advances)

declare table_array_loop.simps [simp del]

definition parse_table_array ::
  "parser \<Rightarrow> nat \<Rightarrow> table \<Rightarrow> cursor \<Rightarrow> exn + parser \<times> table \<times> cursor" where
  "parse_table_array p it0 root curr_table =
     (let s = line p;
          it = it0 + 1;
          ob = std_find (CHR ''['') s it (length s)
      in if ob \<noteq> length s then Inl (throw_parse_exception p ''Cannot have [ in keytable name'')
         else
           let kg_end = std_find (CHR '']'') s it (length s) in
           if kg_end = length s then Inl (throw_parse_exception p ''Unterminated keytable array'')
           else if it = kg_end then Inl (throw_parse_exception p ''Empty keytable'')
           else if deref s (kg_end + 1) \<noteq> CHR '']'' then
             Inl (throw_parse_exception p ''Invalid keytable array specifier'')
           else
             (case table_array_loop p kg_end it root curr_table of
                Inl e \<Rightarrow> Inl e
              | Inr (root1, curr_table1, it1) \<Rightarrow> Inr (p, root1, curr_table1)))"

definition parse_table ::
  "parser \<Rightarrow> nat \<Rightarrow> table \<Rightarrow> cursor \<Rightarrow> exn + parser \<times> table \<times> cursor" where
  "parse_table p it0 root curr_table =
     (let it = it0 + 1 in
      if \<not> it < length (line p) then Inl (throw_parse_exception p ''Unexpected end of table'')
      else if line p ! it = CHR ''['' then parse_table_array p it root curr_table
      else parse_single_table p it root curr_table)"

subsection \<open>Key and value\<close>

definition parse_key_value ::
  "platform \<Rightarrow> parser \<Rightarrow> nat \<Rightarrow> table \<Rightarrow> cursor \<Rightarrow> exn + parser \<times> table" where
  "parse_key_value c p it0 root curr_table =
     (case parse_key p it0 of
        Inl e \<Rightarrow> Inl e
      | Inr (key, it) \<Rightarrow>
          (case table_at root curr_table of
             None \<Rightarrow> Inl undefined_behaviour
           | Some t \<Rightarrow>
               if contains t key then
                 Inl (throw_parse_exception p (''Key '' @ key @ '' already present''))
               else if deref (line p) it \<noteq> CHR ''='' then
                 Inl (throw_parse_exception p
                        (''Value must follow after a '' @ [CHR 0x27, CHR ''='', CHR 0x27]))
               else
                 (case parse_value c p (consume_whitespace (line p) (it + 1)) of
                    Inl e \<Rightarrow> Inl e
                  | Inr (v, p1, it1) \<Rightarrow>
                      (case eol_or_comment p1 (consume_whitespace (line p1) it1) of
                         Inl e \<Rightarrow> Inl e
                       | Inr _ \<Rightarrow>
                           Inr (p1, store_at root curr_table (insert_table key v t))))))"

subsection \<open>The document\<close>

text \<open>The body of the \<open>while\<close> loop of \<open>parse\<close>, once \<open>std::getline\<close> has read a line.\<close>

definition parse_line ::
  "platform \<Rightarrow> parser \<Rightarrow> table \<Rightarrow> cursor \<Rightarrow> exn + parser \<times> table \<times> cursor" where
  "parse_line c p root curr_table =
     (let it = consume_whitespace (line p) 0 in
      if \<not> it < length (line p) \<or> line p ! it = CHR ''#'' then Inr (p, root, curr_table)
      else if line p ! it = CHR ''['' then parse_table p it root []
      else (case parse_key_value c p it root curr_table of
              Inl e \<Rightarrow> Inl e
            | Inr (p1, root1) \<Rightarrow> Inr (p1, root1, curr_table)))"


text \<open>
  What parsing a value leaves of the parser: the stream only shrinks, the line number
  only grows, and the set of declared tables stays.
\<close>

definition frame :: "parser \<Rightarrow> parser \<Rightarrow> bool" where
  "frame p p' \<longleftrightarrow>
     length (input p') \<le> length (input p) \<and> tables p' = tables p
     \<and> line_number p \<le> line_number p'"

lemma frame_refl: "frame p p"
  by (simp add: frame_def)

lemma frame_trans: "frame p q \<Longrightarrow> frame q r \<Longrightarrow> frame p r"
  by (auto simp: frame_def)

lemma next_line_frame: "next_line p = Some p' \<Longrightarrow> frame p p'"
  by (auto simp: next_line_def frame_def split: option.splits dest!: getline_shorter)

lemma skip_loop_frame: "skip_loop p start = Inr (p', it') \<Longrightarrow> frame p p'"
proof (induction p start arbitrary: p' it' rule: skip_loop.induct)
  case (1 p start)
  show ?case
  proof (cases "\<not> start < length (line p) \<or> line p ! start = CHR ''#''")
    case True
    with "1.prems" obtain q where q: "next_line p = Some q"
      and r: "skip_loop q (consume_whitespace (line q) 0) = Inr (p', it')"
      by (subst (asm) skip_loop.simps) (auto split: option.splits)
    from "1.IH"[OF True q r] next_line_frame[OF q] show ?thesis by (rule frame_trans[rotated])
  next
    case False
    with "1.prems" show ?thesis by (subst (asm) skip_loop.simps) (auto simp: frame_refl)
  qed
qed

lemma skip_frame: "skip_whitespace_and_comments p it = Inr (p', it') \<Longrightarrow> frame p p'"
  unfolding skip_whitespace_and_comments_def by (rule skip_loop_frame)

lemma array_next_frame: "array_next p it = Inr (b, p', it') \<Longrightarrow> frame p p'"
  by (auto simp: array_next_def split: sum.splits if_splits dest!: skip_frame
           intro: frame_trans)

lemma lift_value_frame: "lift_value p r = Inr (v, p', it') \<Longrightarrow> frame p p'"
  by (auto simp: lift_value_def frame_refl split: sum.splits)

lemma parse_value_frame:
  shows "\<forall>v p' it'. parse_value c p it = Inr (v, p', it') \<longrightarrow> frame p p'"
    and "\<forall>v p' it'. parse_array c p it = Inr (v, p', it') \<longrightarrow> frame p p'"
    and "\<forall>v p' it'. parse_value_array c T p it arr = Inr (v, p', it') \<longrightarrow> frame p p'"
    and "\<forall>v p' it'. parse_nested_array c p it arr = Inr (v, p', it') \<longrightarrow> frame p p'"
proof (induct rule: parse_value_parse_array_parse_value_array_parse_nested_array.induct)
  case (1 c p it)
  note ps = parse_value.simps[of c p it]
  show ?case
  proof (intro allI impI)
    fix v p' it'
    assume r: "parse_value c p it = Inr (v, p', it')"
    then obtain t where t: "determine_value_type c p it (length (line p)) = Inr t"
      by (auto simp: ps split: sum.splits)
    show "frame p p'"
    proof (cases t)
      case ARRAY
      with r t have "parse_array c p it = Inr (v, p', it')" by (simp add: ps)
      with "1.hyps"[OF t ARRAY] show ?thesis by blast
    qed (use r t in \<open>auto simp: ps dest: lift_value_frame\<close>)
  qed
next
  case (2 c p it0)
  note ps = parse_array.simps[of c p it0]
  show ?case
  proof (intro allI impI)
    fix v p' it'
    assume r: "parse_array c p it0 = Inr (v, p', it')"
    then obtain p1 it where s: "skip_whitespace_and_comments p (it0 + 1) = Inr (p1, it)"
      by (auto simp: ps split: sum.splits)
    note sr = skip_frame[OF s]
    show "frame p p'"
    proof (cases "deref (line p1) it = CHR '']''")
      case True
      with r s have "p' = p1" by (auto simp: ps)
      then show ?thesis using sr by simp
    next
      case False
      let ?e = "find_if (\<lambda>c. c = CHR '','' \<or> c = CHR '']'' \<or> c = CHR ''#'')
                            (line p1) it (length (line p1))"
      from r s False obtain t where t: "determine_value_type c p1 it ?e = Inr t"
        by (auto simp: ps split: sum.splits)
      have "frame p1 p'"
        using r s False t "2.hyps"[OF s refl False refl t]
        by (cases t) (auto simp: ps)
      then show ?thesis using sr by (rule frame_trans[rotated])
    qed
  qed
next
  case (3 c T p it arr)
  note ps = parse_value_array.simps[of c T p it arr]
  show ?case
  proof (intro allI impI)
    fix v p' it'
    assume r: "parse_value_array c T p it arr = Inr (v, p', it')"
    show "frame p p'"
    proof (cases "it < length (line p) \<and> line p ! it \<noteq> CHR '']''")
      case False
      with r show ?thesis by (auto simp: ps frame_refl)
    next
      case True
      with r obtain x p1 it1 where pv: "parse_value c p it = Inr (x, p1, it1)"
        by (auto simp: ps split: sum.splits)
      from "3.hyps"(1)[OF True] pv have r1: "frame p p1" by blast
      from r True pv obtain x2 where av: "as_value T x = Some x2"
        by (auto simp: ps split: option.splits)
      from r True pv av obtain b p2 it2 where an: "array_next p1 it1 = Inr (b, p2, it2)"
        by (auto simp: ps split: sum.splits)
      note r2 = frame_trans[OF r1 array_next_frame[OF an]]
      show ?thesis
      proof (cases b)
        case True
        then have bT: "b = True" by simp
        from True r \<open>it < length (line p) \<and> line p ! it \<noteq> CHR '']''\<close> pv av an
        have "parse_value_array c T p2 it2 (arr @ [x]) = Inr (v, p', it')" by (simp add: ps)
        with "3.hyps"(2)[OF \<open>it < length (line p) \<and> line p ! it \<noteq> CHR '']''\<close> pv refl refl av an refl bT refl]
        have "frame p2 p'" by blast
        with r2 show ?thesis by (rule frame_trans)
      next
        case False
        with r \<open>it < length (line p) \<and> line p ! it \<noteq> CHR '']''\<close> pv av an
        have "p' = p2" by (auto simp: ps)
        then show ?thesis using r2 by simp
      qed
    qed
  qed
next
  case (4 c p it arr)
  note ps = parse_nested_array.simps[of c p it arr]
  show ?case
  proof (intro allI impI)
    fix v p' it'
    assume r: "parse_nested_array c p it arr = Inr (v, p', it')"
    show "frame p p'"
    proof (cases "it < length (line p) \<and> line p ! it \<noteq> CHR '']''")
      case False
      with r show ?thesis by (auto simp: ps frame_refl)
    next
      case True
      with r obtain x p1 it1 where pv: "parse_array c p it = Inr (x, p1, it1)"
        by (auto simp: ps split: sum.splits)
      from "4.hyps"(1)[OF True] pv have r1: "frame p p1" by blast
      from r True pv obtain b p2 it2 where an: "array_next p1 it1 = Inr (b, p2, it2)"
        by (auto simp: ps split: sum.splits)
      note r2 = frame_trans[OF r1 array_next_frame[OF an]]
      show ?thesis
      proof (cases b)
        case True
        then have bT: "b = True" by simp
        from True r \<open>it < length (line p) \<and> line p ! it \<noteq> CHR '']''\<close> pv an
        have "parse_nested_array c p2 it2 (arr @ [x]) = Inr (v, p', it')" by (simp add: ps)
        with "4.hyps"(2)[OF \<open>it < length (line p) \<and> line p ! it \<noteq> CHR '']''\<close> pv refl refl an refl bT refl]
        have "frame p2 p'" by blast
        with r2 show ?thesis by (rule frame_trans)
      next
        case False
        with r \<open>it < length (line p) \<and> line p ! it \<noteq> CHR '']''\<close> pv an
        have "p' = p2" by (auto simp: ps)
        then show ?thesis using r2 by simp
      qed
    qed
  qed
qed

lemma parse_key_value_frame:
  "parse_key_value c p it root curr_table = Inr (p', root') \<Longrightarrow> frame p p'"
  using parse_value_frame(1)
  by (fastforce simp: parse_key_value_def split: sum.splits option.splits if_splits)

lemma parse_single_table_input:
  "parse_single_table p it root curr_table = Inr (p', root', curr_table') \<Longrightarrow>
   input p' = input p"
  by (auto simp: parse_single_table_def Let_def split: if_splits sum.splits)

lemma parse_table_array_input:
  "parse_table_array p it root curr_table = Inr (p', root', curr_table') \<Longrightarrow> p' = p"
  by (auto simp: parse_table_array_def Let_def split: if_splits sum.splits)

lemma parse_table_input:
  "parse_table p it root curr_table = Inr (p', root', curr_table') \<Longrightarrow> input p' = input p"
  by (auto simp: parse_table_def Let_def split: if_splits
           dest: parse_single_table_input parse_table_array_input)

lemma parse_line_input:
  "parse_line c p root curr_table = Inr (p', root', curr_table') \<Longrightarrow>
   length (input p') \<le> length (input p)"
  by (auto simp: parse_line_def Let_def frame_def split: if_splits sum.splits
           dest!: parse_table_input parse_key_value_frame)

function parse_loop :: "platform \<Rightarrow> parser \<Rightarrow> table \<Rightarrow> cursor \<Rightarrow> exn + table" where
  "parse_loop c p root curr_table =
     (case next_line p of
        None \<Rightarrow> Inr root
      | Some p1 \<Rightarrow>
          (case parse_line c p1 root curr_table of
             Inl e \<Rightarrow> Inl e
           | Inr (p2, root2, curr_table2) \<Rightarrow> parse_loop c p2 root2 curr_table2))"
  by pat_completeness auto
termination
  by (relation "measure (\<lambda>(c, p, root, curr_table). length (input p))")
     (auto dest!: next_line_shorter parse_line_input)

declare parse_loop.simps [simp del]

text \<open>\<open>parse\<close> on a parser that was just constructed from the stream.\<close>

definition parser_of :: "string \<Rightarrow> parser" where
  "parser_of stream = \<lparr>input = stream, line = [], line_number = 0, tables = {}\<rparr>"

definition parse :: "platform \<Rightarrow> string \<Rightarrow> exn + table" where
  "parse c stream = parse_loop c (parser_of stream) [] []"

section \<open>Lookups\<close>

text \<open>A lookup that ends in \<open>std::out_of_range\<close>: the not-found error.\<close>

fun not_found :: "exn + 'a \<Rightarrow> bool" where
  "not_found (Inl (out_of_range _)) = True"
| "not_found _ = False"

lemma not_table_as_table: "\<not> is_table b \<Longrightarrow> as_table b = None"
  by (cases b) auto

lemma get_Inr: "get t key = Inr b \<longleftrightarrow> map_of t key = Some b"
  by (auto simp: get_def map_at_def split: option.splits)

lemma get_table_total: "get_table t key = Inr (case map_of t key of Some (Table x) \<Rightarrow> Some x | _ \<Rightarrow> None)"
  by (auto simp: get_table_def get_def map_at_def contains_def split: option.splits base.splits)

lemma get_array_total: "get_array t key = Inr (case map_of t key of Some (Array x) \<Rightarrow> Some x | _ \<Rightarrow> None)"
  by (auto simp: get_array_def get_def map_at_def contains_def split: option.splits base.splits)

lemma get_table_array_total:
  "get_table_array t key = Inr (case map_of t key of Some (Table_array x) \<Rightarrow> Some x | _ \<Rightarrow> None)"
  by (auto simp: get_table_array_def get_def map_at_def contains_def split: option.splits base.splits)

text \<open>The tables \<open>resolve_qualified\<close> walks through, as far as they exist.\<close>

fun walk :: "table \<Rightarrow> string list \<Rightarrow> table option" where
  "walk t [] = Some t"
| "walk t (part # parts) =
     (case map_of t part of Some (Table x) \<Rightarrow> walk x parts | _ \<Rightarrow> None)"

lemma resolve_parts_walk:
  "resolve_parts key p t parts =
     (case walk t parts of
        Some x \<Rightarrow> Inr (Some x)
      | None \<Rightarrow> if p then Inl (out_of_range (key @ '' is not a valid key'')) else Inr None)"
  by (induction parts arbitrary: t)
     (auto simp: get_table_total split: option.splits base.splits)

lemma resolve_qualified_walk:
  "resolve_qualified t key p =
     (let parts = split_str key (CHR ''.'') in
      case walk t (butlast parts) of
        None \<Rightarrow> if p then Inl (out_of_range (key @ '' is not a valid key'')) else Inr (False, None)
      | Some x \<Rightarrow>
          if \<not> p then Inr (map_of x (last parts) \<noteq> None, None)
          else (case map_of x (last parts) of
                  None \<Rightarrow> Inl (out_of_range at_what)
                | Some b \<Rightarrow> Inr (True, Some b)))"
  by (auto simp: resolve_qualified_def resolve_parts_walk Let_def map_at_def split: option.splits)

lemma contains_qualified_total:
  "contains_qualified t key =
     Inr (case walk t (butlast (split_str key (CHR ''.''))) of
            None \<Rightarrow> False
          | Some x \<Rightarrow> map_of x (last (split_str key (CHR ''.''))) \<noteq> None)"
  by (auto simp: contains_qualified_def resolve_qualified_walk Let_def split: option.splits)

lemma get_qualified_cases:
  "get_qualified t key =
     (case walk t (butlast (split_str key (CHR ''.''))) of
        None \<Rightarrow> Inl (out_of_range (key @ '' is not a valid key''))
      | Some x \<Rightarrow> (case map_of x (last (split_str key (CHR ''.''))) of
                     None \<Rightarrow> Inl (out_of_range at_what)
                   | Some b \<Rightarrow> Inr (Some b)))"
  by (auto simp: get_qualified_def resolve_qualified_walk Let_def split: option.splits)

lemma get_qualified_absent:
  "contains_qualified t key = Inr False \<Longrightarrow> not_found (get_qualified t key)"
  by (auto simp: contains_qualified_total get_qualified_cases split: option.splits)

lemma get_qualified_present:
  "contains_qualified t key = Inr True \<Longrightarrow> \<exists>b. get_qualified t key = Inr (Some b)"
  by (auto simp: contains_qualified_total get_qualified_cases split: option.splits)

lemma get_table_qualified_total:
  "get_table_qualified t key =
     Inr (case get_qualified t key of Inr (Some b) \<Rightarrow> as_table b | _ \<Rightarrow> None)"
  by (auto simp: get_table_qualified_def through_def contains_qualified_total get_qualified_cases
           not_table_as_table split: option.splits bool.splits)

lemma get_array_qualified_total:
  "get_array_qualified t key =
     Inr (case get_qualified t key of Inr (Some b) \<Rightarrow> as_array b | _ \<Rightarrow> None)"
  by (auto simp: get_array_qualified_def through_def contains_qualified_total get_qualified_cases
           split: option.splits)

lemma get_table_array_qualified_total:
  "get_table_array_qualified t key =
     Inr (case get_qualified t key of Inr (Some b) \<Rightarrow> as_table_array b | _ \<Rightarrow> None)"
  by (auto simp: get_table_array_qualified_def through_def contains_qualified_total
           get_qualified_cases split: option.splits)

text \<open>
  C5, for the accessors that can be called. The direct lookups \<open>get\<close> and
  \<open>get_qualified\<close> raise not-found on an absent key; \<open>get_table\<close>, \<open>get_array\<close>,
  \<open>get_table_array\<close> and their qualified forms return an empty result, and never raise,
  both on an absent key and on a node of another kind.
\<close>

theorem typed_accessors_absorb_misses:
  "(\<not> contains t key \<longrightarrow> not_found (get t key))
   \<and> (contains_qualified t key = Inr False \<longrightarrow> not_found (get_qualified t key))
   \<and> (\<not> contains t key \<longrightarrow>
        get_table t key = Inr None
        \<and> get_array t key = Inr None \<and> get_table_array t key = Inr None)
   \<and> (contains_qualified t key = Inr False \<longrightarrow>
        get_table_qualified t key = Inr None
        \<and> get_array_qualified t key = Inr None \<and> get_table_array_qualified t key = Inr None)
   \<and> (get t key = Inr b \<longrightarrow>
        (\<not> is_table b \<longrightarrow> get_table t key = Inr None)
        \<and> (\<not> is_array b \<longrightarrow> get_array t key = Inr None)
        \<and> (\<not> is_table_array b \<longrightarrow> get_table_array t key = Inr None))
   \<and> (get_qualified t key = Inr (Some b) \<longrightarrow>
        (\<not> is_table b \<longrightarrow> get_table_qualified t key = Inr None)
        \<and> (\<not> is_array b \<longrightarrow> get_array_qualified t key = Inr None)
        \<and> (\<not> is_table_array b \<longrightarrow> get_table_array_qualified t key = Inr None))
   \<and> (\<exists>r. get_table t key = Inr r)
   \<and> (\<exists>r. get_array t key = Inr r) \<and> (\<exists>r. get_table_array t key = Inr r)
   \<and> (\<exists>r. get_table_qualified t key = Inr r)
   \<and> (\<exists>r. get_array_qualified t key = Inr r) \<and> (\<exists>r. get_table_array_qualified t key = Inr r)"
proof -
  have absent: "\<not> contains t key \<Longrightarrow> map_of t key = None"
    by (simp add: contains_def)
  have 1: "\<not> contains t key \<longrightarrow> not_found (get t key)"
    by (auto simp: get_def map_at_def dest!: absent)
  have 2: "contains_qualified t key = Inr False \<longrightarrow> not_found (get_qualified t key)"
    by (auto dest: get_qualified_absent)
  have 3: "\<not> contains t key \<longrightarrow>
        get_table t key = Inr None
        \<and> get_array t key = Inr None \<and> get_table_array t key = Inr None"
    by (auto simp: get_table_total get_array_total get_table_array_total
             dest!: absent)
  have 4: "contains_qualified t key = Inr False \<longrightarrow>
        get_table_qualified t key = Inr None
        \<and> get_array_qualified t key = Inr None \<and> get_table_array_qualified t key = Inr None"
    using get_qualified_absent[of t key]
    by (cases "get_qualified t key")
       (auto simp: get_table_qualified_total get_array_qualified_total
          get_table_array_qualified_total)
  have 5: "get t key = Inr b \<longrightarrow>
        (\<not> is_table b \<longrightarrow> get_table t key = Inr None)
        \<and> (\<not> is_array b \<longrightarrow> get_array t key = Inr None)
        \<and> (\<not> is_table_array b \<longrightarrow> get_table_array t key = Inr None)"
    by (cases b)
       (auto simp: get_table_total get_array_total get_table_array_total get_Inr)
  have 6: "get_qualified t key = Inr (Some b) \<longrightarrow>
        (\<not> is_table b \<longrightarrow> get_table_qualified t key = Inr None)
        \<and> (\<not> is_array b \<longrightarrow> get_array_qualified t key = Inr None)
        \<and> (\<not> is_table_array b \<longrightarrow> get_table_array_qualified t key = Inr None)"
    by (cases b)
       (auto simp: get_table_qualified_total get_array_qualified_total
          get_table_array_qualified_total)
  show ?thesis
    using 1 2 3 4 5 6
    by (simp add: get_table_total get_array_total get_table_array_total
          get_table_qualified_total get_array_qualified_total
          get_table_array_qualified_total)
qed


definition sample_table :: table where
  "sample_table =
     [(''a'', Value (Bool True)), (''s'', Table [(''k'', Value (Int64 1))])]"

theorem typed_accessors_absorb_misses_witness:
  "not_found (get sample_table ''b'')
   \<and> not_found (get_qualified sample_table ''s.z'')
   \<and> get_table sample_table ''b'' = Inr None
   \<and> get_array sample_table ''b'' = Inr None
   \<and> get_table_array sample_table ''b'' = Inr None
   \<and> get_table_qualified sample_table ''s.z'' = Inr None
   \<and> get_array_qualified sample_table ''s.z'' = Inr None
   \<and> get_table_array_qualified sample_table ''s.z'' = Inr None
   \<and> get_table sample_table ''a'' = Inr None
   \<and> get_array sample_table ''a'' = Inr None
   \<and> get_table_array sample_table ''a'' = Inr None
   \<and> get_table_qualified sample_table ''s.k'' = Inr None
   \<and> get_array_qualified sample_table ''s.k'' = Inr None
   \<and> get_table_array_qualified sample_table ''s.k'' = Inr None"
proof -
  have absent: "\<not> contains sample_table ''b''" by code_simp
  have absent_q: "contains_qualified sample_table ''s.z'' = Inr False" by code_simp
  have present: "get sample_table ''a'' = Inr (Value (Bool True))" by code_simp
  have present_q: "get_qualified sample_table ''s.k'' = Inr (Some (Value (Int64 1)))"
    by code_simp
  have other: "\<not> is_table (Value (Bool True))"
    "\<not> is_array (Value (Bool True))" "\<not> is_table_array (Value (Bool True))"
    "\<not> is_table (Value (Int64 1))"
    "\<not> is_array (Value (Int64 1))" "\<not> is_table_array (Value (Int64 1))"
    by simp_all
  have 1: "not_found (get sample_table ''b'')
      \<and> get_table sample_table ''b'' = Inr None
      \<and> get_array sample_table ''b'' = Inr None
      \<and> get_table_array sample_table ''b'' = Inr None"
    using typed_accessors_absorb_misses[of sample_table "''b''" "Value (Bool True)"]
      absent by simp
  have 2: "not_found (get_qualified sample_table ''s.z'')
      \<and> get_table_qualified sample_table ''s.z'' = Inr None
      \<and> get_array_qualified sample_table ''s.z'' = Inr None
      \<and> get_table_array_qualified sample_table ''s.z'' = Inr None"
    using typed_accessors_absorb_misses[of sample_table "''s.z''" "Value (Bool True)"]
      absent_q by simp
  have 3: "get_table sample_table ''a'' = Inr None
      \<and> get_array sample_table ''a'' = Inr None
      \<and> get_table_array sample_table ''a'' = Inr None"
    using typed_accessors_absorb_misses[of sample_table "''a''" "Value (Bool True)"]
      present other by simp
  have 4: "get_table_qualified sample_table ''s.k'' = Inr None
      \<and> get_array_qualified sample_table ''s.k'' = Inr None
      \<and> get_table_array_qualified sample_table ''s.k'' = Inr None"
    using typed_accessors_absorb_misses[of sample_table "''s.k''" "Value (Int64 1)"]
      present_q other by simp
  from 1 2 3 4 show ?thesis by simp
qed

section \<open>Qualified lookup\<close>

lemma find_char_here:
  "c \<notin> set x \<Longrightarrow> find_char (pre @ x @ c # rest) c (length pre) = Some (length pre + length x)"
proof (induction x arbitrary: pre)
  case Nil
  show ?case by (subst find_char.simps) simp
next
  case (Cons a x)
  from Cons.prems have ne: "a \<noteq> c" and nin: "c \<notin> set x" by auto
  have "find_char (pre @ (a # x) @ c # rest) c (length pre)
        = find_char ((pre @ [a]) @ x @ c # rest) c (length (pre @ [a]))"
    using ne by (subst find_char.simps) (simp add: nth_append)
  also have "\<dots> = Some (length (pre @ [a]) + length x)" by (rule Cons.IH[OF nin])
  finally show ?case by simp
qed

lemma find_char_none: "c \<notin> set x \<Longrightarrow> find_char (pre @ x) c (length pre) = None"
proof (induction x arbitrary: pre)
  case Nil
  show ?case by (subst find_char.simps) simp
next
  case (Cons a x)
  from Cons.prems have ne: "a \<noteq> c" and nin: "c \<notin> set x" by auto
  have "find_char (pre @ a # x) c (length pre) = find_char ((pre @ [a]) @ x) c (length (pre @ [a]))"
    using ne by (subst find_char.simps) (simp add: nth_append)
  also have "\<dots> = None" by (rule Cons.IH[OF nin])
  finally show ?case .
qed

text \<open>A dotted path: its segments with a dot between them.\<close>

fun dotted :: "string list \<Rightarrow> string" where
  "dotted [] = []"
| "dotted [x] = x"
| "dotted (x # y # ys) = x @ CHR ''.'' # dotted (y # ys)"

lemma split_loop_dotted:
  "parts \<noteq> [] \<Longrightarrow> \<forall>x\<in>set parts. CHR ''.'' \<notin> set x \<Longrightarrow>
   split_loop (pre @ dotted parts) (CHR ''.'') (length pre) acc = acc @ parts"
proof (induction parts arbitrary: pre acc rule: dotted.induct)
  case 1
  then show ?case by simp
next
  case (2 x)
  then show ?case
    by (subst split_loop.simps) (simp add: find_char_none)
next
  case (3 x y ys)
  let ?s = "pre @ x @ CHR ''.'' # dotted (y # ys)"
  from "3.prems" have x: "CHR ''.'' \<notin> set x" and rest: "\<forall>z\<in>set (y # ys). CHR ''.'' \<notin> set z"
    by auto
  have f: "find_char ?s (CHR ''.'') (length pre) = Some (length pre + length x)"
    by (rule find_char_here[OF x])
  have sub: "substr ?s (length pre) (length x) = x" by (simp add: substr_def)
  have "split_loop ?s (CHR ''.'') (length pre) acc
        = split_loop ((pre @ x @ ''.'') @ dotted (y # ys)) (CHR ''.'') (length (pre @ x @ ''.'')) (acc @ [x])"
    by (subst split_loop.simps) (simp add: f sub)
  also have "\<dots> = (acc @ [x]) @ (y # ys)"
    by (rule "3.IH") (use rest in auto)
  finally show ?case by simp
qed

lemma split_str_dotted:
  "parts \<noteq> [] \<Longrightarrow> \<forall>x\<in>set parts. CHR ''.'' \<notin> set x \<Longrightarrow>
   split_str (dotted parts) (CHR ''.'') = parts"
  using split_loop_dotted[of parts "[]" "[]"] by (simp add: split_str_def)

text \<open>
  C4. For segments \<open>a\<close>, \<open>b\<close>, \<open>c\<close>: when \<open>root.get_table(a)->get_table(b)->get(c)\<close>
  resolves to a node, \<open>get_qualified\<close> of \<open>a.b.c\<close> returns that node; when a segment is
  missing, it raises the not-found error.
\<close>

theorem get_qualified_follows_the_path:
  assumes "CHR ''.'' \<notin> set a" and "CHR ''.'' \<notin> set b" and "CHR ''.'' \<notin> set c"
  shows "(get_table root a = Inr (Some ta) \<and> get_table ta b = Inr (Some tb) \<and> get tb c = Inr v
            \<longrightarrow> get_qualified root (a @ ''.'' @ b @ ''.'' @ c) = Inr (Some v))
         \<and> (get_table root a = Inr None
              \<or> (get_table root a = Inr (Some ta) \<and> get_table ta b = Inr None)
              \<or> (get_table root a = Inr (Some ta) \<and> get_table ta b = Inr (Some tb)
                  \<and> \<not> contains tb c)
            \<longrightarrow> not_found (get_qualified root (a @ ''.'' @ b @ ''.'' @ c)))"
proof -
  let ?key = "a @ ''.'' @ b @ ''.'' @ c"
  have key: "?key = dotted [a, b, c]" by simp
  have parts: "split_str ?key (CHR ''.'') = [a, b, c]"
    unfolding key by (rule split_str_dotted) (use assms in auto)
  have q: "get_qualified root ?key =
     (case walk root [a, b] of
        None \<Rightarrow> Inl (out_of_range (?key @ '' is not a valid key''))
      | Some x \<Rightarrow> (case map_of x c of
                     None \<Rightarrow> Inl (out_of_range at_what)
                   | Some b \<Rightarrow> Inr (Some b)))"
    unfolding get_qualified_cases parts by (simp cong: option.case_cong)
  have w: "walk root [a, b] = (case get_table root a of
             Inr (Some x) \<Rightarrow> (case get_table x b of Inr (Some y) \<Rightarrow> Some y | _ \<Rightarrow> None)
           | _ \<Rightarrow> None)"
    by (simp add: get_table_total split: option.splits base.splits)
  have 1: "get_table root a = Inr (Some ta) \<and> get_table ta b = Inr (Some tb) \<and> get tb c = Inr v
            \<longrightarrow> get_qualified root ?key = Inr (Some v)"
    unfolding q w by (simp add: get_Inr)
  have 2: "get_table root a = Inr None
              \<or> (get_table root a = Inr (Some ta) \<and> get_table ta b = Inr None)
              \<or> (get_table root a = Inr (Some ta) \<and> get_table ta b = Inr (Some tb)
                  \<and> \<not> contains tb c)
            \<longrightarrow> not_found (get_qualified root ?key)"
    unfolding q w by (auto simp: contains_def)
  from 1 2 show ?thesis by blast
qed

theorem get_qualified_follows_the_path_witness:
  "get_qualified [(''a'', Table [(''b'', Table [(''c'', Value (Bool True))])])] ''a.b.c''
     = Inr (Some (Value (Bool True)))
   \<and> not_found (get_qualified [(''a'', Table [(''b'', Value (Bool True))])] ''a.b.c'')"
proof -
  let ?r1 = "[(''a'', Table [(''b'', Table [(''c'', Value (Bool True))])])]"
  let ?r2 = "[(''a'', Table [(''b'', Value (Bool True))])]"
  have seg: "CHR ''.'' \<notin> set ''a''" "CHR ''.'' \<notin> set ''b''" "CHR ''.'' \<notin> set ''c''"
    by simp_all
  have r1: "get_table ?r1 ''a'' = Inr (Some [(''b'', Table [(''c'', Value (Bool True))])])"
    "get_table [(''b'', Table [(''c'', Value (Bool True))])] ''b'' = Inr (Some [(''c'', Value (Bool True))])"
    "get [(''c'', Value (Bool True))] ''c'' = Inr (Value (Bool True))"
    by code_simp+
  have r2: "get_table ?r2 ''a'' = Inr (Some [(''b'', Value (Bool True))])"
    "get_table [(''b'', Value (Bool True))] ''b'' = Inr None"
    by code_simp+
  show ?thesis
    using get_qualified_follows_the_path[OF seg, of ?r1 "[(''b'', Table [(''c'', Value (Bool True))])]"
        "[(''c'', Value (Bool True))]" "Value (Bool True)"]
      get_qualified_follows_the_path[OF seg, of ?r2 "[(''b'', Value (Bool True))]" "[]" "Value (Bool True)"]
      r1 r2
    by simp
qed

section \<open>Insertion\<close>

text \<open>
  C10. \<open>insert\<close> on a key the table already holds replaces the node and raises
  nothing; the keys stay as they are. It is \<open>parse_key_value\<close> that refuses a key the
  current table holds.
\<close>

theorem insert_replaces_silently:
  assumes "contains t k"
  shows "get (insert_table k v t) k = Inr v
         \<and> (\<forall>k'. k' \<noteq> k \<longrightarrow> get (insert_table k v t) k' = get t k')
         \<and> map fst (insert_table k v t) = map fst t
         \<and> (\<forall>c p it it' root curr_table.
               parse_key p it = Inr (k, it') \<and> table_at root curr_table = Some t \<longrightarrow>
               parse_key_value c p it root curr_table
                 = Inl (parse_exception_at (''Key '' @ k @ '' already present'') (line_number p)))"
proof -
  from assms have "k \<in> fst ` set t"
    by (auto simp: contains_def map_of_eq_None_iff)
  then have keys: "map fst (insert_table k v t) = map fst t"
    by (simp add: insert_table_def update_keys)
  have a: "get (insert_table k v t) k = Inr v"
    by (simp add: get_def map_at_def insert_table_def update_conv')
  have b: "\<forall>k'. k' \<noteq> k \<longrightarrow> get (insert_table k v t) k' = get t k'"
    by (simp add: get_def map_at_def insert_table_def update_conv')
  have c: "\<forall>c p it it' root curr_table.
               parse_key p it = Inr (k, it') \<and> table_at root curr_table = Some t \<longrightarrow>
               parse_key_value c p it root curr_table
                 = Inl (parse_exception_at (''Key '' @ k @ '' already present'') (line_number p))"
    using assms by (simp add: parse_key_value_def throw_parse_exception_def)
  from a b keys c show ?thesis by blast
qed


definition no_stod :: platform where
  "no_stod = \<lparr>CPPTOML_HAS_STD_REGEX = True, stod = (\<lambda>v. Inl (invalid_argument ''stod''))\<rparr>"

theorem insert_replaces_silently_witness:
  "get (insert_table ''a'' (Value (Bool False)) [(''a'', Value (Bool True))]) ''a''
     = Inr (Value (Bool False))
   \<and> map fst (insert_table ''a'' (Value (Bool False)) [(''a'', Value (Bool True))]) = [''a'']
   \<and> parse_key_value no_stod \<lparr>input = [], line = ''a = 1'', line_number = 1, tables = {}\<rparr> 0
         [(''a'', Value (Bool True))] []
       = Inl (parse_exception_at ''Key a already present'' 1)"
proof -
  let ?t = "[(''a'', Value (Bool True))] :: table"
  let ?p = "\<lparr>input = [], line = ''a = 1'', line_number = 1, tables = {}\<rparr>"
  have c: "contains ?t ''a''" by code_simp
  have k: "parse_key ?p 0 = Inr (''a'', 2)" by code_simp
  have t: "table_at ?t [] = Some ?t" by simp
  from insert_replaces_silently[OF c, of "Value (Bool False)"] k t show ?thesis
    by simp
qed

section \<open>Documents\<close>

lemma platform_cases:
  assumes "\<And>f. P \<lparr>CPPTOML_HAS_STD_REGEX = True, stod = f\<rparr>"
    and "\<And>f. P \<lparr>CPPTOML_HAS_STD_REGEX = False, stod = f\<rparr>"
  shows "P c"
proof (cases c)
  case (fields b f)
  with assms show ?thesis by (cases b) auto
qed

definition example_document :: string where
  "example_document =
     ''title = '' @ [CHR 0x22] @ ''demo'' @ [CHR 0x22, CHR 0x0A]
     @ ''[owner]'' @ [CHR 0x0A]
     @ ''name = '' @ [CHR 0x22] @ ''Tom'' @ [CHR 0x22, CHR 0x0A]
     @ ''[[fruit]]'' @ [CHR 0x0A]
     @ ''name = '' @ [CHR 0x22] @ ''apple'' @ [CHR 0x22, CHR 0x0A]
     @ ''[[fruit]]'' @ [CHR 0x0A]
     @ ''name = '' @ [CHR 0x22] @ ''banana'' @ [CHR 0x22, CHR 0x0A]"

definition example_root :: table where
  "example_root =
     [(''title'', Value (String ''demo'')),
      (''owner'', Table [(''name'', Value (String ''Tom''))]),
      (''fruit'', Table_array [[(''name'', Value (String ''apple''))],
                              [(''name'', Value (String ''banana''))]])]"

text \<open>
  C1. The example document parses; in the root table \<open>title\<close> is the string \<open>demo\<close>,
  \<open>owner\<close> is a table whose \<open>name\<close> is \<open>Tom\<close>, and \<open>fruit\<close> is a table array of two
  tables whose \<open>name\<close> is \<open>apple\<close> in the first and \<open>banana\<close> in the second.
\<close>

theorem example_document_parses:
  "parse c example_document = Inr example_root
   \<and> get example_root ''title'' = Inr (Value (String ''demo''))
   \<and> get_table example_root ''owner'' = Inr (Some [(''name'', Value (String ''Tom''))])
   \<and> get [(''name'', Value (String ''Tom''))] ''name'' = Inr (Value (String ''Tom''))
   \<and> get_table_array example_root ''fruit''
       = Inr (Some [[(''name'', Value (String ''apple''))], [(''name'', Value (String ''banana''))]])
   \<and> get [(''name'', Value (String ''apple''))] ''name'' = Inr (Value (String ''apple''))
   \<and> get [(''name'', Value (String ''banana''))] ''name'' = Inr (Value (String ''banana''))
   \<and> map fst example_root = [''title'', ''owner'', ''fruit'']"
proof -
  have "parse c example_document = Inr example_root" by code_simp
  moreover have "get example_root ''title'' = Inr (Value (String ''demo''))" by code_simp
  moreover have "get_table example_root ''owner'' = Inr (Some [(''name'', Value (String ''Tom''))])"
    by code_simp
  moreover have "get [(''name'', Value (String ''Tom''))] ''name'' = Inr (Value (String ''Tom''))"
    by code_simp
  moreover have "get_table_array example_root ''fruit''
       = Inr (Some [[(''name'', Value (String ''apple''))], [(''name'', Value (String ''banana''))]])"
    by code_simp
  moreover have "get [(''name'', Value (String ''apple''))] ''name'' = Inr (Value (String ''apple''))"
    by code_simp
  moreover have "get [(''name'', Value (String ''banana''))] ''name'' = Inr (Value (String ''banana''))"
    by code_simp
  moreover have "map fst example_root = [''title'', ''owner'', ''fruit'']" by code_simp
  ultimately show ?thesis by blast
qed

theorem example_document_parses_witness:
  "parse no_stod example_document = Inr example_root"
  using example_document_parses[of no_stod] by simp

text \<open>
  C8. The line \<open>x = 1.\<close> raises the parse error \<open>Floats must have trailing digits\<close>, at
  line 1, with or without a newline behind it.
\<close>

theorem float_without_trailing_digits:
  "parse c ''x = 1.'' = Inl (parse_exception_at ''Floats must have trailing digits'' 1)
   \<and> parse c (''x = 1.'' @ [CHR 0x0A]) = Inl (parse_exception_at ''Floats must have trailing digits'' 1)
   \<and> what (parse_exception_at ''Floats must have trailing digits'' 1)
       = ''Floats must have trailing digits at line 1''"
proof (rule platform_cases[of _ c])
  fix f
  show "parse \<lparr>CPPTOML_HAS_STD_REGEX = True, stod = f\<rparr> ''x = 1.'' = Inl (parse_exception_at ''Floats must have trailing digits'' 1)
   \<and> parse \<lparr>CPPTOML_HAS_STD_REGEX = True, stod = f\<rparr> (''x = 1.'' @ [CHR 0x0A]) = Inl (parse_exception_at ''Floats must have trailing digits'' 1)
   \<and> what (parse_exception_at ''Floats must have trailing digits'' 1)
       = ''Floats must have trailing digits at line 1''"
    by code_simp
  show "parse \<lparr>CPPTOML_HAS_STD_REGEX = False, stod = f\<rparr> ''x = 1.'' = Inl (parse_exception_at ''Floats must have trailing digits'' 1)
   \<and> parse \<lparr>CPPTOML_HAS_STD_REGEX = False, stod = f\<rparr> (''x = 1.'' @ [CHR 0x0A]) = Inl (parse_exception_at ''Floats must have trailing digits'' 1)
   \<and> what (parse_exception_at ''Floats must have trailing digits'' 1)
       = ''Floats must have trailing digits at line 1''"
    by code_simp
qed

theorem float_without_trailing_digits_witness:
  "parse no_stod ''x = 1.'' = Inl (parse_exception_at ''Floats must have trailing digits'' 1)"
  using float_without_trailing_digits[of no_stod] by simp

text \<open>
  C6. A table header with a blank in its name raises a \<open>parse_exception\<close> made by the
  constructor that takes no line number: its text names no line.
\<close>

theorem whitespace_in_table_name_has_no_line:
  "parse c ''[a b]'' = Inl (parse_exception ''Table name a b cannot have whitespace'')
   \<and> what (parse_exception ''Table name a b cannot have whitespace'')
       = ''Table name a b cannot have whitespace''
   \<and> parse c ''[]'' = Inl (parse_exception_at ''Empty table'' 1)
   \<and> what (parse_exception_at ''Empty table'' 1) = ''Empty table at line 1''"
  by code_simp

text \<open>
  C7. An array of booleans raises \<open>Unable to parse array\<close>, while a boolean on its own
  and an array of integers parse.
\<close>

theorem boolean_array_is_refused:
  "parse c ''x = [true, false]'' = Inl (parse_exception_at ''Unable to parse array'' 1)
   \<and> parse c ''x = [ true , false ]'' = Inl (parse_exception_at ''Unable to parse array'' 1)
   \<and> parse c ''x = true'' = Inr [(''x'', Value (Bool True))]
   \<and> parse c ''x = [1, 2]'' = Inr [(''x'', Array [Value (Int64 1), Value (Int64 2)])]"
proof (rule platform_cases[of _ c])
  fix f
  show "parse \<lparr>CPPTOML_HAS_STD_REGEX = True, stod = f\<rparr> ''x = [true, false]'' = Inl (parse_exception_at ''Unable to parse array'' 1)
   \<and> parse \<lparr>CPPTOML_HAS_STD_REGEX = True, stod = f\<rparr> ''x = [ true , false ]'' = Inl (parse_exception_at ''Unable to parse array'' 1)
   \<and> parse \<lparr>CPPTOML_HAS_STD_REGEX = True, stod = f\<rparr> ''x = true'' = Inr [(''x'', Value (Bool True))]
   \<and> parse \<lparr>CPPTOML_HAS_STD_REGEX = True, stod = f\<rparr> ''x = [1, 2]'' = Inr [(''x'', Array [Value (Int64 1), Value (Int64 2)])]"
    by code_simp
  show "parse \<lparr>CPPTOML_HAS_STD_REGEX = False, stod = f\<rparr> ''x = [true, false]'' = Inl (parse_exception_at ''Unable to parse array'' 1)
   \<and> parse \<lparr>CPPTOML_HAS_STD_REGEX = False, stod = f\<rparr> ''x = [ true , false ]'' = Inl (parse_exception_at ''Unable to parse array'' 1)
   \<and> parse \<lparr>CPPTOML_HAS_STD_REGEX = False, stod = f\<rparr> ''x = true'' = Inr [(''x'', Value (Bool True))]
   \<and> parse \<lparr>CPPTOML_HAS_STD_REGEX = False, stod = f\<rparr> ''x = [1, 2]'' = Inr [(''x'', Array [Value (Int64 1), Value (Int64 2)])]"
    by code_simp
qed

section \<open>Arrays\<close>

text \<open>
  The element types \<open>parse_array\<close> instantiates \<open>parse_value_array\<close> with.
\<close>

definition array_types :: "value_type list" where
  "array_types = [T_string, T_int64, T_double, T_tm]"

text \<open>
  An array is homogeneous when all its elements are values of one of these types, or
  all of them are arrays.
\<close>

definition homogeneous :: "base list \<Rightarrow> bool" where
  "homogeneous xs \<longleftrightarrow>
     (\<exists>T\<in>set array_types. \<forall>x\<in>set xs. as_value T x \<noteq> None) \<or> (\<forall>x\<in>set xs. is_array x)"

text \<open>Every array of a document, at any depth, is homogeneous.\<close>

fun arrays_ok :: "base \<Rightarrow> bool" where
  "arrays_ok (Value s) = True"
| "arrays_ok (Array xs) = (homogeneous xs \<and> (\<forall>x\<in>set xs. arrays_ok x))"
| "arrays_ok (Table t) = (\<forall>kv\<in>set t. arrays_ok (snd kv))"
| "arrays_ok (Table_array ts) = (\<forall>t\<in>set ts. \<forall>kv\<in>set t. arrays_ok (snd kv))"


lemma lift_value_Value:
  assumes "lift_value p r = Inr (v, p', it')"
    and "\<And>v it'. r = Inr (v, it') \<Longrightarrow> is_value v"
  shows "arrays_ok v"
proof -
  from assms have "is_value v" by (auto simp: lift_value_def split: sum.splits)
  then show ?thesis by (cases v) auto
qed

lemma parse_string_Value: "parse_string p it = Inr (v, it') \<Longrightarrow> is_value v"
  by (auto simp: parse_string_def split: sum.splits)

lemma parse_date_Value: "parse_date c p it = Inr (v, it') \<Longrightarrow> is_value v"
  by (auto simp: parse_date_def Let_def split: if_splits sum.splits list.splits)

lemma parse_number_Value: "parse_number c p it = Inr (v, it') \<Longrightarrow> is_value v"
  by (auto simp: parse_number_def parse_int_def parse_float_def Let_def split: if_splits sum.splits)

lemma parse_bool_Value: "parse_bool p it = Inr (v, it') \<Longrightarrow> is_value v"
  by (auto simp: parse_bool_def Let_def split: if_splits)

lemma values_homogeneous:
  assumes "T \<in> set array_types" and "\<forall>x\<in>set xs. as_value T x \<noteq> None"
  shows "arrays_ok (Array xs)"
proof -
  have "arrays_ok x" if "x \<in> set xs" for x
    using assms(2) that by (cases x) auto
  with assms show ?thesis by (auto simp: homogeneous_def)
qed

lemma parse_value_arrays_ok:
  shows "\<forall>v p' it'. parse_value c p it = Inr (v, p', it') \<longrightarrow> arrays_ok v"
    and "\<forall>v p' it'. parse_array c p it = Inr (v, p', it') \<longrightarrow> arrays_ok v \<and> is_array v"
    and "(\<forall>x\<in>set arr. as_value T x \<noteq> None) \<longrightarrow>
         (\<forall>v p' it'. parse_value_array c T p it arr = Inr (v, p', it') \<longrightarrow>
            (\<exists>xs. v = Array xs \<and> (\<forall>x\<in>set xs. as_value T x \<noteq> None)))"
    and "(\<forall>x\<in>set arr. is_array x \<and> arrays_ok x) \<longrightarrow>
         (\<forall>v p' it'. parse_nested_array c p it arr = Inr (v, p', it') \<longrightarrow>
            (\<exists>xs. v = Array xs \<and> (\<forall>x\<in>set xs. is_array x \<and> arrays_ok x)))"
proof (induct rule: parse_value_parse_array_parse_value_array_parse_nested_array.induct)
  case (1 c p it)
  note ps = parse_value.simps[of c p it]
  show ?case
  proof (intro allI impI)
    fix v p' it'
    assume r: "parse_value c p it = Inr (v, p', it')"
    then obtain t where t: "determine_value_type c p it (length (line p)) = Inr t"
      by (auto simp: ps split: sum.splits)
    show "arrays_ok v"
    proof (cases t)
      case ARRAY
      with r t have "parse_array c p it = Inr (v, p', it')" by (simp add: ps)
      with "1.hyps"[OF t ARRAY] show ?thesis by blast
    qed (use r t in \<open>auto simp: ps elim!: lift_value_Value
           dest: parse_string_Value parse_date_Value parse_number_Value parse_bool_Value\<close>)
  qed
next
  case (2 c p it0)
  note ps = parse_array.simps[of c p it0]
  show ?case
  proof (intro allI impI)
    fix v p' it'
    assume r: "parse_array c p it0 = Inr (v, p', it')"
    then obtain p1 it where s: "skip_whitespace_and_comments p (it0 + 1) = Inr (p1, it)"
      by (auto simp: ps split: sum.splits)
    show "arrays_ok v \<and> is_array v"
    proof (cases "deref (line p1) it = CHR '']''")
      case True
      with r s have "v = Array []" by (auto simp: ps)
      then show ?thesis by (simp add: homogeneous_def)
    next
      case False
      let ?e = "find_if (\<lambda>c. c = CHR '','' \<or> c = CHR '']'' \<or> c = CHR ''#'')
                            (line p1) it (length (line p1))"
      from r s False obtain t where t: "determine_value_type c p1 it ?e = Inr t"
        by (auto simp: ps split: sum.splits)
      note ih = "2.hyps"[OF s refl False refl t]
      show ?thesis
      proof (cases t)
        case STRING
        with r s False t have "parse_value_array c T_string p1 it [] = Inr (v, p', it')"
          by (simp add: ps)
        with ih(1)[OF STRING] obtain xs where "v = Array xs" "\<forall>x\<in>set xs. as_value T_string x \<noteq> None"
          by auto
        then show ?thesis using values_homogeneous[of T_string xs] by (simp add: array_types_def)
      next
        case DATE
        with r s False t have "parse_value_array c T_tm p1 it [] = Inr (v, p', it')"
          by (simp add: ps)
        with ih(2)[OF DATE] obtain xs where "v = Array xs" "\<forall>x\<in>set xs. as_value T_tm x \<noteq> None"
          by auto
        then show ?thesis using values_homogeneous[of T_tm xs] by (simp add: array_types_def)
      next
        case INT_t
        with r s False t have "parse_value_array c T_int64 p1 it [] = Inr (v, p', it')"
          by (simp add: ps)
        with ih(3)[OF INT_t] obtain xs where "v = Array xs" "\<forall>x\<in>set xs. as_value T_int64 x \<noteq> None"
          by auto
        then show ?thesis using values_homogeneous[of T_int64 xs] by (simp add: array_types_def)
      next
        case FLOAT
        with r s False t have "parse_value_array c T_double p1 it [] = Inr (v, p', it')"
          by (simp add: ps)
        with ih(4)[OF FLOAT] obtain xs where "v = Array xs" "\<forall>x\<in>set xs. as_value T_double x \<noteq> None"
          by auto
        then show ?thesis using values_homogeneous[of T_double xs] by (simp add: array_types_def)
      next
        case BOOL
        with r s False t show ?thesis by (simp add: ps)
      next
        case ARRAY
        with r s False t have "parse_nested_array c p1 it [] = Inr (v, p', it')"
          by (simp add: ps)
        with ih(5)[OF ARRAY] obtain xs where "v = Array xs" "\<forall>x\<in>set xs. is_array x \<and> arrays_ok x"
          by auto
        then show ?thesis by (auto simp: homogeneous_def)
      qed
    qed
  qed
next
  case (3 c T p it arr)
  note ps = parse_value_array.simps[of c T p it arr]
  show ?case
  proof (intro allI impI)
    fix v p' it'
    assume arr: "\<forall>x\<in>set arr. as_value T x \<noteq> None"
    assume r: "parse_value_array c T p it arr = Inr (v, p', it')"
    show "\<exists>xs. v = Array xs \<and> (\<forall>x\<in>set xs. as_value T x \<noteq> None)"
    proof (cases "it < length (line p) \<and> line p ! it \<noteq> CHR '']''")
      case False
      with r arr show ?thesis by (auto simp: ps)
    next
      case True
      with r obtain x p1 it1 where pv: "parse_value c p it = Inr (x, p1, it1)"
        by (auto simp: ps split: sum.splits)
      from r True pv obtain x2 where av: "as_value T x = Some x2"
        by (auto simp: ps split: option.splits)
      from r True pv av obtain b p2 it2 where an: "array_next p1 it1 = Inr (b, p2, it2)"
        by (auto simp: ps split: sum.splits)
      from arr av have arr': "\<forall>y\<in>set (arr @ [x]). as_value T y \<noteq> None" by auto
      show ?thesis
      proof (cases b)
        case True
        then have bT: "b = True" by simp
        from True r \<open>it < length (line p) \<and> line p ! it \<noteq> CHR '']''\<close> pv av an
        have "parse_value_array c T p2 it2 (arr @ [x]) = Inr (v, p', it')" by (simp add: ps)
        with "3.hyps"(2)[OF \<open>it < length (line p) \<and> line p ! it \<noteq> CHR '']''\<close> pv refl refl av an refl bT refl] arr'
        show ?thesis by blast
      next
        case False
        with r \<open>it < length (line p) \<and> line p ! it \<noteq> CHR '']''\<close> pv av an
        have "v = Array (arr @ [x])" by (auto simp: ps)
        then show ?thesis using arr' by blast
      qed
    qed
  qed
next
  case (4 c p it arr)
  note ps = parse_nested_array.simps[of c p it arr]
  show ?case
  proof (intro allI impI)
    fix v p' it'
    assume arr: "\<forall>x\<in>set arr. is_array x \<and> arrays_ok x"
    assume r: "parse_nested_array c p it arr = Inr (v, p', it')"
    show "\<exists>xs. v = Array xs \<and> (\<forall>x\<in>set xs. is_array x \<and> arrays_ok x)"
    proof (cases "it < length (line p) \<and> line p ! it \<noteq> CHR '']''")
      case False
      with r arr show ?thesis by (auto simp: ps)
    next
      case True
      with r obtain x p1 it1 where pv: "parse_array c p it = Inr (x, p1, it1)"
        by (auto simp: ps split: sum.splits)
      from "4.hyps"(1)[OF True] pv have x: "arrays_ok x \<and> is_array x" by blast
      from r True pv obtain b p2 it2 where an: "array_next p1 it1 = Inr (b, p2, it2)"
        by (auto simp: ps split: sum.splits)
      from arr x have arr': "\<forall>y\<in>set (arr @ [x]). is_array y \<and> arrays_ok y" by auto
      show ?thesis
      proof (cases b)
        case True
        then have bT: "b = True" by simp
        from True r \<open>it < length (line p) \<and> line p ! it \<noteq> CHR '']''\<close> pv an
        have "parse_nested_array c p2 it2 (arr @ [x]) = Inr (v, p', it')" by (simp add: ps)
        with "4.hyps"(2)[OF \<open>it < length (line p) \<and> line p ! it \<noteq> CHR '']''\<close> pv refl refl an refl bT refl] arr'
        show ?thesis by blast
      next
        case False
        with r \<open>it < length (line p) \<and> line p ! it \<noteq> CHR '']''\<close> pv an
        have "v = Array (arr @ [x])" by (auto simp: ps)
        then show ?thesis using arr' by blast
      qed
    qed
  qed
qed


lemma update_ok:
  "\<forall>kv\<in>set t. arrays_ok (snd kv) \<Longrightarrow> arrays_ok v \<Longrightarrow>
   \<forall>kv\<in>set (AList.update k v t). arrays_ok (snd kv)"
  by (induction t) auto

lemma map_of_ok: "\<forall>kv\<in>set t. arrays_ok (snd kv) \<Longrightarrow> map_of t k = Some b \<Longrightarrow> arrays_ok b"
  by (auto dest!: map_of_SomeD)

lemma points_to_ok: "arrays_ok b \<Longrightarrow> points_to b = Some t \<Longrightarrow> \<forall>kv\<in>set t. arrays_ok (snd kv)"
  by (cases b) (auto split: if_splits)

lemma table_at_ok:
  "\<forall>kv\<in>set root. arrays_ok (snd kv) \<Longrightarrow> table_at root cur = Some t \<Longrightarrow>
   \<forall>kv\<in>set t. arrays_ok (snd kv)"
proof (induction cur arbitrary: root)
  case Nil
  then show ?case by simp
next
  case (Cons k ks)
  from Cons.prems(2) obtain b t1 where b: "map_of root k = Some b" and t1: "points_to b = Some t1"
    and rest: "table_at t1 ks = Some t"
    by (auto split: option.splits)
  from map_of_ok[OF Cons.prems(1) b] points_to_ok[OF _ t1]
  have "\<forall>kv\<in>set t1. arrays_ok (snd kv)" by blast
  from Cons.IH[OF this rest] show ?case .
qed

lemma store_at_ok:
  "\<forall>kv\<in>set root. arrays_ok (snd kv) \<Longrightarrow> \<forall>kv\<in>set t'. arrays_ok (snd kv) \<Longrightarrow>
   \<forall>kv\<in>set (store_at root cur t'). arrays_ok (snd kv)"
proof (induction cur arbitrary: root)
  case Nil
  then show ?case by simp
next
  case (Cons k ks)
  show ?case
  proof (cases "map_of root k")
    case None
    with Cons.prems show ?thesis by simp
  next
    case (Some b)
    note bok = map_of_ok[OF Cons.prems(1) Some]
    show ?thesis
    proof (cases b)
      case (Table t)
      with bok have "\<forall>kv\<in>set t. arrays_ok (snd kv)" by simp
      from Cons.IH[OF this Cons.prems(2)] have "arrays_ok (Table (store_at t ks t'))" by simp
      from update_ok[OF Cons.prems(1) this] show ?thesis using Some Table by simp
    next
      case (Table_array ts)
      show ?thesis
      proof (cases "ts = []")
        case True
        with Cons.prems Some Table_array show ?thesis by simp
      next
        case False
        then have "last ts \<in> set ts" by simp
        with bok Table_array have "\<forall>kv\<in>set (last ts). arrays_ok (snd kv)" by simp
        from Cons.IH[OF this Cons.prems(2)]
        have l: "\<forall>kv\<in>set (store_at (last ts) ks t'). arrays_ok (snd kv)" .
        have "\<forall>t\<in>set (butlast ts). \<forall>kv\<in>set t. arrays_ok (snd kv)"
          using bok Table_array by (auto dest: in_set_butlastD)
        with l have "arrays_ok (Table_array (butlast ts @ [store_at (last ts) ks t']))" by auto
        from update_ok[OF Cons.prems(1) this] show ?thesis using Some Table_array False by simp
      qed
    qed (use Cons.prems Some in auto)
  qed
qed

lemma insert_at_ok:
  assumes "\<forall>kv\<in>set root. arrays_ok (snd kv)" and "table_at root cur = Some t" and "arrays_ok v"
  shows "\<forall>kv\<in>set (store_at root cur (insert_table k v t)). arrays_ok (snd kv)"
proof -
  have "\<forall>kv\<in>set (insert_table k v t). arrays_ok (snd kv)"
    unfolding insert_table_def by (rule update_ok[OF table_at_ok[OF assms(1,2)] assms(3)])
  from store_at_ok[OF assms(1) this] show ?thesis .
qed

lemma single_table_part_root:
  assumes "single_table_part p kg_end it root cur = Inr (root', cur', it')"
  shows "root' = root
         \<or> (\<exists>t part. table_at root cur = Some t \<and> \<not> contains t part
               \<and> root' = store_at root cur (insert_table part (Table []) t))"
  using assms
  by (auto simp: single_table_part_def Let_def split: if_splits option.splits sum.splits)

lemma single_table_part_ok:
  assumes "single_table_part p kg_end it root cur = Inr (root', cur', it')"
    and "\<forall>kv\<in>set root. arrays_ok (snd kv)"
  shows "\<forall>kv\<in>set root'. arrays_ok (snd kv)"
proof -
  have "arrays_ok (Table [])" by simp
  with single_table_part_root[OF assms(1)] insert_at_ok[OF assms(2)] assms(2)
  show ?thesis by blast
qed

lemma single_table_loop_ok:
  "single_table_loop p kg_end it root cur = Inr (root', cur', it') \<Longrightarrow>
   \<forall>kv\<in>set root. arrays_ok (snd kv) \<Longrightarrow> \<forall>kv\<in>set root'. arrays_ok (snd kv)"
proof (induction p kg_end it root cur rule: single_table_loop.induct)
  case (1 p kg_end it root cur)
  show ?case
  proof (cases "it \<noteq> kg_end")
    case True
    with "1.prems"(1) obtain r1 c1 it1 where a: "single_table_part p kg_end it root cur = Inr (r1, c1, it1)"
      and b: "single_table_loop p kg_end it1 r1 c1 = Inr (root', cur', it')"
      by (subst (asm) single_table_loop.simps) (auto split: sum.splits)
    from "1.IH"[OF True a refl refl b single_table_part_ok[OF a "1.prems"(2)]] show ?thesis .
  next
    case False
    with "1.prems" show ?thesis by (subst (asm) single_table_loop.simps) auto
  qed
qed

lemma as_table_array_Some: "as_table_array b = Some v \<longleftrightarrow> b = Table_array v"
  by (cases b) auto

lemma table_array_part_root:
  assumes "table_array_part p kg_end it root cur = Inr (root', cur', it')"
  shows "root' = root
         \<or> (\<exists>t part. table_at root cur = Some t \<and> \<not> contains t part
               \<and> root' = store_at root cur (insert_table part (Table []) t))
         \<or> (\<exists>t part. table_at root cur = Some t \<and> \<not> contains t part
               \<and> root' = store_at root cur (insert_table part (Table_array [[]]) t))
         \<or> (\<exists>t part v. table_at root cur = Some t \<and> map_of t part = Some (Table_array v)
               \<and> root' = store_at root cur (AList.update part (Table_array (v @ [[]])) t))"
proof -
  define part where "part = str_range (line p) it (std_find (CHR ''.'') (line p) it kg_end)"
  from assms obtain t where t: "table_at root cur = Some t"
    by (auto simp: table_array_part_def Let_def split: if_splits option.splits)
  show ?thesis
  proof (cases "contains t part")
    case False
    with assms t have "root' = store_at root cur (insert_table part (Table []) t)
        \<or> root' = store_at root cur (insert_table part (Table_array [[]]) t)"
      by (auto simp: table_array_part_def Let_def part_def split: if_splits)
    with t False show ?thesis by blast
  next
    case True
    with assms t obtain b where b: "map_of t part = Some b"
      by (auto simp: table_array_part_def Let_def part_def get_Inr split: if_splits sum.splits)
    with assms t True have "root' = root
        \<or> (\<exists>v. b = Table_array v \<and> root' = store_at root cur (AList.update part (Table_array (v @ [[]])) t))"
      by (auto simp: table_array_part_def Let_def part_def get_def map_at_def as_table_array_Some
               split: if_splits option.splits)
    with t b show ?thesis by blast
  qed
qed

lemma table_array_part_ok:
  assumes "table_array_part p kg_end it root cur = Inr (root', cur', it')"
    and "\<forall>kv\<in>set root. arrays_ok (snd kv)"
  shows "\<forall>kv\<in>set root'. arrays_ok (snd kv)"
proof -
  have e: "arrays_ok (Table [])" "arrays_ok (Table_array [[]])" by simp_all
  have push: "\<forall>kv\<in>set (store_at root cur (AList.update k (Table_array (v @ [[]])) t)). arrays_ok (snd kv)"
    if "table_at root cur = Some t" "map_of t k = Some (Table_array v)" for t k v
  proof -
    note tok = table_at_ok[OF assms(2) that(1)]
    from map_of_ok[OF tok that(2)] have "arrays_ok (Table_array (v @ [[]]))" by auto
    from store_at_ok[OF assms(2) update_ok[OF tok this]] show ?thesis .
  qed
  from table_array_part_root[OF assms(1)] insert_at_ok[OF assms(2)] e push assms(2)
  show ?thesis by blast
qed

lemma table_array_loop_ok:
  "table_array_loop p kg_end it root cur = Inr (root', cur', it') \<Longrightarrow>
   \<forall>kv\<in>set root. arrays_ok (snd kv) \<Longrightarrow> \<forall>kv\<in>set root'. arrays_ok (snd kv)"
proof (induction p kg_end it root cur rule: table_array_loop.induct)
  case (1 p kg_end it root cur)
  show ?case
  proof (cases "it \<noteq> kg_end")
    case True
    with "1.prems"(1) obtain r1 c1 it1 where a: "table_array_part p kg_end it root cur = Inr (r1, c1, it1)"
      and b: "table_array_loop p kg_end it1 r1 c1 = Inr (root', cur', it')"
      by (subst (asm) table_array_loop.simps) (auto split: sum.splits)
    from "1.IH"[OF True a refl refl b table_array_part_ok[OF a "1.prems"(2)]] show ?thesis .
  next
    case False
    with "1.prems" show ?thesis by (subst (asm) table_array_loop.simps) auto
  qed
qed

lemma parse_single_table_loop:
  assumes "parse_single_table p it root cur = Inr (p', root', cur')"
  shows "\<exists>kg_end it'. p' = p\<lparr>tables := insert (str_range (line p) it kg_end) (tables p)\<rparr>
           \<and> kg_end = std_find (CHR '']'') (line p) it (length (line p))
           \<and> str_range (line p) it kg_end \<notin> tables p
           \<and> single_table_loop p' kg_end it root cur = Inr (root', cur', it')"
  using assms
  by (auto simp: parse_single_table_def Let_def split: if_splits sum.splits)

lemma parse_table_array_loop:
  assumes "parse_table_array p it root cur = Inr (p', root', cur')"
  shows "p' = p \<and> (\<exists>kg_end it'. table_array_loop p kg_end (it + 1) root cur = Inr (root', cur', it'))"
  using assms
  by (auto simp: parse_table_array_def Let_def split: if_splits sum.splits)

lemma parse_table_cases:
  assumes "parse_table p it root cur = Inr (p', root', cur')"
  shows "parse_single_table p (it + 1) root cur = Inr (p', root', cur')
         \<or> parse_table_array p (it + 1) root cur = Inr (p', root', cur')"
  using assms by (auto simp: parse_table_def Let_def split: if_splits)

lemma parse_table_ok:
  assumes "parse_table p it root cur = Inr (p', root', cur')"
    and "\<forall>kv\<in>set root. arrays_ok (snd kv)"
  shows "\<forall>kv\<in>set root'. arrays_ok (snd kv)"
  using parse_table_cases[OF assms(1)] assms(2)
  by (auto dest!: parse_single_table_loop parse_table_array_loop
           dest: single_table_loop_ok table_array_loop_ok)

lemma parse_key_value_ok:
  assumes "parse_key_value c p it root cur = Inr (p', root')"
    and "\<forall>kv\<in>set root. arrays_ok (snd kv)"
  shows "\<forall>kv\<in>set root'. arrays_ok (snd kv)"
proof -
  from assms(1) obtain key it1 t v p1 it2 where t: "table_at root cur = Some t"
    and v: "parse_value c p it1 = Inr (v, p1, it2)"
    and r: "root' = store_at root cur (insert_table key v t)"
    by (auto simp: parse_key_value_def split: sum.splits option.splits if_splits)
  from parse_value_arrays_ok(1) v have "arrays_ok v" by blast
  from insert_at_ok[OF assms(2) t this] r show ?thesis by simp
qed

lemma parse_line_cases:
  assumes "parse_line c p root cur = Inr (p', root', cur')"
  shows "(p' = p \<and> root' = root \<and> cur' = cur)
         \<or> (\<exists>it. parse_table p it root [] = Inr (p', root', cur'))
         \<or> (\<exists>it. parse_key_value c p it root cur = Inr (p', root') \<and> cur' = cur)"
  using assms by (auto simp: parse_line_def Let_def split: if_splits sum.splits)

lemma parse_line_ok:
  assumes "parse_line c p root cur = Inr (p', root', cur')"
    and "\<forall>kv\<in>set root. arrays_ok (snd kv)"
  shows "\<forall>kv\<in>set root'. arrays_ok (snd kv)"
  using parse_line_cases[OF assms(1)] assms(2) parse_table_ok parse_key_value_ok
  by blast

lemma parse_loop_ok:
  "parse_loop c p root cur = Inr root' \<Longrightarrow> \<forall>kv\<in>set root. arrays_ok (snd kv) \<Longrightarrow>
   \<forall>kv\<in>set root'. arrays_ok (snd kv)"
proof (induction c p root cur rule: parse_loop.induct)
  case (1 c p root cur)
  show ?case
  proof (cases "next_line p")
    case None
    with "1.prems" show ?thesis by (subst (asm) parse_loop.simps) simp
  next
    case (Some p1)
    with "1.prems"(1) obtain p2 r2 c2 where a: "parse_line c p1 root cur = Inr (p2, r2, c2)"
      and b: "parse_loop c p2 r2 c2 = Inr root'"
      by (subst (asm) parse_loop.simps) (auto split: sum.splits)
    from "1.IH"[OF Some a refl refl b parse_line_ok[OF a "1.prems"(2)]] show ?thesis .
  qed
qed


text \<open>
  The elements of an input array, as \<open>parse_value\<close> reads them one after the other: the
  loop of \<open>parse_value_array\<close> with the test of the element type left out.
\<close>

function parse_elements ::
  "platform \<Rightarrow> parser \<Rightarrow> nat \<Rightarrow> base list \<Rightarrow> exn + base list \<times> parser \<times> nat" where
  "parse_elements c p it arr =
     (if it < length (line p) \<and> line p ! it \<noteq> CHR '']'' then
        (case parse_value c p it of
           Inl e \<Rightarrow> Inl e
         | Inr (v, p1, it1) \<Rightarrow>
             (case array_next p1 it1 of
                Inl e \<Rightarrow> Inl e
              | Inr (False, p2, it2) \<Rightarrow> Inr (arr @ [v], p2, array_close p2 it2)
              | Inr (True, p2, it2) \<Rightarrow> parse_elements c p2 it2 (arr @ [v])))
      else Inr (arr, p, array_close p it))"
  by pat_completeness auto
termination
proof (relation "measure (\<lambda>(c, p, it, arr). remaining p it)", goal_cases)
  case 1
  show ?case by simp
next
  case (2 c p it arr b x y xa ya ba xaa yb xab yc)
  then show ?case
    using parse_value_remaining(1)[of c p it x xa ya] array_next_remaining(2)[of xa ya xaa xab yc]
    by auto
qed

declare parse_elements.simps [simp del]

text \<open>Two elements that are values of different types.\<close>

fun value_type_of :: "base \<Rightarrow> value_type option" where
  "value_type_of (Value a) = Some (type_of a)"
| "value_type_of _ = None"

definition mixed :: "base list \<Rightarrow> bool" where
  "mixed vs \<longleftrightarrow>
     (\<exists>x\<in>set vs. \<exists>y\<in>set vs.
        value_type_of x \<noteq> None \<and> value_type_of y \<noteq> None \<and> value_type_of x \<noteq> value_type_of y)"

lemma mixed_mismatch:
  assumes "mixed vs"
  shows "\<exists>v\<in>set vs. as_value T v = None"
proof -
  from assms obtain x y where xy: "x \<in> set vs" "y \<in> set vs" "value_type_of x \<noteq> None"
    "value_type_of y \<noteq> None" "value_type_of x \<noteq> value_type_of y"
    by (auto simp: mixed_def)
  from xy(3) obtain a where a: "x = Value a" by (cases x) auto
  from xy(4) obtain b where b: "y = Value b" by (cases y) auto
  from xy(5) a b have "type_of a \<noteq> type_of b" by simp
  with a b have "as_value T x = None \<or> as_value T y = None" by auto
  with xy show ?thesis by blast
qed

lemma parse_elements_frame:
  "parse_elements c p it arr = Inr (vs, p', it') \<Longrightarrow> frame p p'"
proof (induction c p it arr arbitrary: vs p' it' rule: parse_elements.induct)
  case (1 c p it arr)
  note pe = parse_elements.simps[of c p it arr]
  show ?case
  proof (cases "it < length (line p) \<and> line p ! it \<noteq> CHR '']''")
    case False
    with "1.prems" show ?thesis by (auto simp: pe frame_refl)
  next
    case True
    with "1.prems" obtain v p1 it1 where pv: "parse_value c p it = Inr (v, p1, it1)"
      by (auto simp: pe split: sum.splits)
    from True "1.prems" pv obtain b p2 it2 where an: "array_next p1 it1 = Inr (b, p2, it2)"
      by (auto simp: pe split: sum.splits)
    from parse_value_frame(1) pv have "frame p p1" by blast
    from frame_trans[OF this array_next_frame[OF an]] have f2: "frame p p2" .
    show ?thesis
    proof (cases b)
      case False
      with True "1.prems" pv an have "p' = p2" by (auto simp: pe)
      with f2 show ?thesis by simp
    next
      case bT: True
      then have b: "b = True" by simp
      from True "1.prems" pv an bT have "parse_elements c p2 it2 (arr @ [v]) = Inr (vs, p', it')"
        by (simp add: pe)
      from frame_trans[OF f2 "1.IH"[OF True pv refl refl an refl b refl this]] show ?thesis .
    qed
  qed
qed

lemma parse_value_array_elements:
  "parse_elements c p it arr = Inr (vs, p', it') \<Longrightarrow>
   \<exists>new. vs = arr @ new \<and>
   (if \<forall>v\<in>set new. as_value T v \<noteq> None
    then parse_value_array c T p it arr = Inr (Array vs, p', it')
    else \<exists>n. line_number p \<le> n \<and> n \<le> line_number p'
           \<and> parse_value_array c T p it arr
               = Inl (parse_exception_at ''Arrays must be heterogeneous'' n))"
proof (induction c p it arr arbitrary: vs p' it' rule: parse_elements.induct)
  case (1 c p it arr)
  note pe = parse_elements.simps[of c p it arr]
  note pa = parse_value_array.simps[of c T p it arr]
  show ?case
  proof (cases "it < length (line p) \<and> line p ! it \<noteq> CHR '']''")
    case False
    with "1.prems" have "vs = arr" "p' = p" "it' = array_close p it" by (auto simp: pe)
    moreover from False have "parse_value_array c T p it arr = Inr (Array arr, p, array_close p it)"
      by (auto simp: pa)
    ultimately show ?thesis by simp
  next
    case True
    with "1.prems" obtain v p1 it1 where pv: "parse_value c p it = Inr (v, p1, it1)"
      by (auto simp: pe split: sum.splits)
    from True "1.prems" pv obtain b p2 it2 where an: "array_next p1 it1 = Inr (b, p2, it2)"
      by (auto simp: pe split: sum.splits)
    from parse_value_frame(1) pv have f1: "frame p p1" by blast
    note f2 = array_next_frame[OF an]
    have bad: "parse_value_array c T p it arr
            = Inl (parse_exception_at ''Arrays must be heterogeneous'' (line_number p1))"
      if "as_value T v = None"
      using that True pv by (simp add: pa throw_parse_exception_def)
    show ?thesis
    proof (cases b)
      case False
      with True "1.prems" pv an have vs: "vs = arr @ [v]" "p' = p2" "it' = array_close p2 it2"
        by (auto simp: pe)
      show ?thesis
      proof (cases "as_value T v")
        case None
        with bad vs f1 f2 show ?thesis by (auto simp: frame_def)
      next
        case (Some a)
        with True pv an False have "parse_value_array c T p it arr
            = Inr (Array (arr @ [v]), p2, array_close p2 it2)"
          by (simp add: pa)
        with Some vs show ?thesis by simp
      qed
    next
      case bT: True
      then have b: "b = True" by simp
      from True "1.prems" pv an bT have rest: "parse_elements c p2 it2 (arr @ [v]) = Inr (vs, p', it')"
        by (simp add: pe)
      from "1.IH"[OF True pv refl refl an refl b refl rest]
      obtain new where new: "vs = (arr @ [v]) @ new"
        and ih: "if \<forall>v\<in>set new. as_value T v \<noteq> None
                 then parse_value_array c T p2 it2 (arr @ [v]) = Inr (Array vs, p', it')
                 else \<exists>n. line_number p2 \<le> n \<and> n \<le> line_number p'
                        \<and> parse_value_array c T p2 it2 (arr @ [v])
                            = Inl (parse_exception_at ''Arrays must be heterogeneous'' n)"
        by blast
      have f3: "line_number p1 \<le> line_number p'"
        using parse_elements_frame[OF rest] f2 by (simp add: frame_def)
      show ?thesis
      proof (cases "as_value T v")
        case None
        with bad new f1 f3 show ?thesis by (auto simp: frame_def intro!: exI[of _ "v # new"])
      next
        case (Some a)
        with True pv an bT have step: "parse_value_array c T p it arr
            = parse_value_array c T p2 it2 (arr @ [v])"
          by (simp add: pa)
        show ?thesis
        proof (cases "\<forall>v\<in>set new. as_value T v \<noteq> None")
          case True
          with ih Some new step show ?thesis by (auto intro!: exI[of _ "v # new"])
        next
          case False
          with ih have "\<exists>n. line_number p2 \<le> n \<and> n \<le> line_number p'
              \<and> parse_value_array c T p2 it2 (arr @ [v])
                  = Inl (parse_exception_at ''Arrays must be heterogeneous'' n)"
            by (simp only: if_False)
          then obtain n where "line_number p2 \<le> n" "n \<le> line_number p'"
            "parse_value_array c T p2 it2 (arr @ [v])
               = Inl (parse_exception_at ''Arrays must be heterogeneous'' n)" by blast
          with False new step f1 f2 show ?thesis
            by (auto simp: frame_def intro!: exI[of _ "v # new"])
        qed
      qed
    qed
  qed
qed


lemma parse_elements_extends:
  "parse_elements c p it arr = Inr (vs, p', it') \<Longrightarrow> \<exists>new. vs = arr @ new"
  using parse_value_array_elements[of c p it arr vs p' it' T_string] by blast

lemma parse_elements_first:
  assumes "parse_elements c p it [] = Inr (vs, p', it')" and "vs \<noteq> []"
  shows "\<exists>p1 it1. parse_value c p it = Inr (hd vs, p1, it1)"
    and "it < length (line p)" and "line p ! it \<noteq> CHR '']''"
proof -
  note pe = parse_elements.simps[of c p it "[]"]
  from assms show lt: "it < length (line p)" and nb: "line p ! it \<noteq> CHR '']''"
    by (auto simp: pe split: if_splits)
  with assms(1) obtain v p1 it1 where pv: "parse_value c p it = Inr (v, p1, it1)"
    by (auto simp: pe split: sum.splits)
  from lt nb assms(1) pv obtain b p2 it2 where an: "array_next p1 it1 = Inr (b, p2, it2)"
    by (auto simp: pe split: sum.splits)
  have "hd vs = v"
  proof (cases b)
    case True
    with lt nb assms(1) pv an have "parse_elements c p2 it2 [v] = Inr (vs, p', it')"
      by (simp add: pe)
    from parse_elements_extends[OF this] show ?thesis by auto
  next
    case False
    with lt nb assms(1) pv an show ?thesis by (auto simp: pe)
  qed
  with pv show "\<exists>p1 it1. parse_value c p it = Inr (hd vs, p1, it1)" by blast
qed

lemma find_if_prefix: "b \<le> i \<Longrightarrow> i < find_if P s b e \<Longrightarrow> \<not> P (s ! i)"
proof (induction P s b e rule: find_if.induct)
  case (1 P s b e)
  show ?case
  proof (cases "b < e")
    case False
    with "1.prems" find_if_beyond[of b e P s] have "i < e" "e \<le> b" by auto
    with "1.prems" show ?thesis by simp
  next
    case True
    show ?thesis
    proof (cases "P (s ! b)")
      case Pb: True
      with True have "find_if P s b e = b" by (subst find_if.simps) simp
      with "1.prems" show ?thesis by simp
    next
      case False
      with True have eq: "find_if P s b e = find_if P s (Suc b) e" by (subst find_if.simps) simp
      show ?thesis
      proof (cases "i = b")
        case True
        with False show ?thesis by simp
      next
        case ne: False
        with "1.prems" have "Suc b \<le> i" by simp
        from "1.IH"[OF True False this] "1.prems"(2) eq show ?thesis by simp
      qed
    qed
  qed
qed

lemma regex_match_first: "regex_match (x # xs) pattern \<Longrightarrow> is_number x"
  by (simp add: pattern_def)

lemma scan_d_first:
  assumes "scan_d (x # xs) \<noteq> None" and "date_char x"
  shows "is_number x \<or> x = CHR ''-''"
proof -
  from assms(2) have ns: "\<not> isspace x"
    by (auto simp: date_char_def isspace_def is_number_def)
  from assms(2) have np: "x \<noteq> CHR ''+''"
    by (auto simp: date_char_def is_number_def)
  show ?thesis
  proof (rule ccontr)
    assume "\<not> (is_number x \<or> x = CHR ''-'')"
    then have "scan_d (x # xs) = None" using ns np by (simp add: scan_d_def)
    with assms(1) show False by simp
  qed
qed

lemma is_date_first:
  assumes "is_date c s it e"
  shows "is_number (deref s it) \<or> deref s it = CHR ''-''"
proof -
  define date_end where "date_end = find_if (\<lambda>c. \<not> date_char c) s it e"
  define to_match where "to_match = str_range s it date_end"
  from assms have ne: "to_match \<noteq> []"
    by (auto simp: is_date_def Let_def date_end_def to_match_def pattern_def split: if_splits)
  then have lt: "it < date_end" and len: "it < length s"
    by (auto simp: to_match_def str_range_def)
  from find_if_prefix[of it it "\<lambda>c. \<not> date_char c" s e] lt have dc: "date_char (s ! it)"
    by (simp add: date_end_def)
  from ne lt len obtain xs where tm: "to_match = s ! it # xs"
    by (cases to_match) (auto simp: to_match_def str_range_def hd_drop_conv_nth take_Suc
          dest!: arg_cong[where f = hd])
  show ?thesis
  proof (cases "CPPTOML_HAS_STD_REGEX c")
    case True
    with assms have "regex_match to_match pattern"
      by (simp add: is_date_def Let_def date_end_def to_match_def)
    with tm regex_match_first len show ?thesis by (simp add: deref_def)
  next
    case False
    with assms have "length (sscanf to_match date_format) = 6"
      by (simp add: is_date_def Let_def date_end_def to_match_def)
    then have "scan_d to_match \<noteq> None"
      by (auto simp: date_format_def split: option.splits)
    with tm scan_d_first dc len show ?thesis by (simp add: deref_def)
  qed
qed

text \<open>The parse types \<open>parse_array\<close> starts \<open>parse_value_array\<close> for.\<close>

definition scalar_type :: "parse_type \<Rightarrow> bool" where
  "scalar_type t \<longleftrightarrow> t = STRING \<or> t = DATE \<or> t = INT_t \<or> t = FLOAT"

lemma determine_number_type_scalar: "scalar_type (determine_number_type s it e)"
  by (simp add: determine_number_type_def scalar_type_def Let_def)

lemma first_element_type:
  assumes "parse_value c p it = Inr (Value a, p', it')" and "type_of a \<in> set array_types"
  shows "\<exists>t. determine_value_type c p it e = Inr t \<and> scalar_type t"
proof -
  note ps = parse_value.simps[of c p it]
  let ?s = "line p"
  from assms(1) obtain t0 where t0: "determine_value_type c p it (length ?s) = Inr t0"
    by (auto simp: ps split: sum.splits)
  have start: "deref ?s it = CHR 0x22 \<or> is_number (deref ?s it) \<or> deref ?s it = CHR ''-''"
  proof (cases t0)
    case BOOL
    with assms(1) t0 have "type_of a = T_bool"
      by (auto simp: ps lift_value_def parse_bool_def Let_def split: sum.splits if_splits)
    with assms(2) show ?thesis by (simp add: array_types_def)
  next
    case ARRAY
    with assms(1) t0 have "parse_array c p it = Inr (Value a, p', it')" by (simp add: ps)
    with parse_value_arrays_ok(2) have "is_array (Value a)" by blast
    then show ?thesis by simp
  qed (use t0 is_date_first[of c ?s it "length ?s"] in
        \<open>auto simp: determine_value_type_def Let_def determine_number_type_def split: if_splits\<close>)
  then show ?thesis
    using determine_number_type_scalar[of ?s it e]
    by (auto simp: determine_value_type_def Let_def scalar_type_def)
qed

text \<open>The elements of the array whose opening bracket is at \<open>it\<close>.\<close>

definition array_elements :: "platform \<Rightarrow> parser \<Rightarrow> nat \<Rightarrow> exn + base list \<times> parser \<times> nat" where
  "array_elements c p it =
     (case skip_whitespace_and_comments p (it + 1) of
        Inl e \<Rightarrow> Inl e
      | Inr (p1, it1) \<Rightarrow> parse_elements c p1 it1 [])"

lemma open_bracket_type:
  assumes "deref (line p) it = CHR ''[''"
  shows "determine_value_type c p it e = Inr ARRAY"
proof -
  from is_date_first[of c "line p" it e] assms have "\<not> is_date c (line p) it e"
    by (auto simp: is_number_def)
  with assms show ?thesis
    by (simp add: determine_value_type_def Let_def is_number_def)
qed

lemma mixed_array_raises:
  assumes "deref (line p) it = CHR ''[''"
    and "array_elements c p it = Inr (vs, p', it')"
    and "mixed vs"
    and "\<exists>T\<in>set array_types. as_value T (hd vs) \<noteq> None"
  shows "\<exists>n. line_number p \<le> n \<and> n \<le> line_number p'
           \<and> parse_value c p it = Inl (parse_exception_at ''Arrays must be heterogeneous'' n)"
proof -
  from assms(2) obtain p1 it1 where s: "skip_whitespace_and_comments p (it + 1) = Inr (p1, it1)"
    and pe: "parse_elements c p1 it1 [] = Inr (vs, p', it')"
    by (auto simp: array_elements_def split: sum.splits)
  from assms(3) have ne: "vs \<noteq> []" by (auto simp: mixed_def)
  from parse_elements_first[OF pe ne] obtain p2 it2
    where first: "parse_value c p1 it1 = Inr (hd vs, p2, it2)"
      and lt: "it1 < length (line p1)" and nb: "line p1 ! it1 \<noteq> CHR '']''"
    by blast
  from assms(4) obtain a where a: "hd vs = Value a" "type_of a \<in> set array_types"
    by (cases "hd vs") (auto split: if_splits)
  let ?e = "find_if (\<lambda>c. c = CHR '','' \<or> c = CHR '']'' \<or> c = CHR ''#'')
              (line p1) it1 (length (line p1))"
  from first_element_type[OF first[unfolded a(1)] a(2), of ?e]
  obtain t where t: "determine_value_type c p1 it1 ?e = Inr t" "scalar_type t" by blast
  have raises: "\<exists>n. line_number p1 \<le> n \<and> n \<le> line_number p'
           \<and> parse_value_array c T p1 it1 []
               = Inl (parse_exception_at ''Arrays must be heterogeneous'' n)" for T
    using parse_value_array_elements[OF pe, of T] mixed_mismatch[OF assms(3), of T]
    by (auto split: if_splits)
  from lt nb have nb': "deref (line p1) it1 \<noteq> CHR '']''" by (simp add: deref_def)
  have "\<exists>T. parse_array c p it = parse_value_array c T p1 it1 []"
    using s nb' t by (auto simp: parse_array.simps[of c p it] scalar_type_def)
  with raises obtain n where n: "line_number p1 \<le> n" "n \<le> line_number p'"
    "parse_array c p it = Inl (parse_exception_at ''Arrays must be heterogeneous'' n)"
    by metis
  from skip_frame[OF s] n(1) have "line_number p \<le> n" by (simp add: frame_def)
  moreover have "parse_value c p it = parse_array c p it"
    by (simp add: parse_value.simps[of c p it] open_bracket_type[OF assms(1)])
  ultimately show ?thesis using n by auto
qed

text \<open>Every array of a parsed document is homogeneous.\<close>

lemma parsed_arrays_are_homogeneous:
  assumes "parse c stream = Inr root"
  shows "arrays_ok (Table root)"
proof -
  from assms have "\<forall>kv\<in>set root. arrays_ok (snd kv)"
    unfolding parse_def by (rule parse_loop_ok) simp
  then show ?thesis by simp
qed

text \<open>
  C2. An array of a boolean and an integer holds two elements of different kinds, and the
  parse does not raise \<open>Arrays must be heterogeneous\<close> on it: with the boolean first it
  raises \<open>Unable to parse array\<close>, with the boolean last, right before the bracket, it
  raises \<open>Attempted to parse invalid boolean value\<close>. With a blank behind the boolean
  the second array raises \<open>Arrays must be heterogeneous\<close>, as an array of an integer and
  a string does.
\<close>

theorem boolean_in_mixed_array:
  "parse c ''x = [true , 1]'' = Inl (parse_exception_at ''Unable to parse array'' 1)
   \<and> parse c ''x = [1, true]''
       = Inl (parse_exception_at ''Attempted to parse invalid boolean value'' 1)
   \<and> parse c ''x = [1, true ]'' = Inl (parse_exception_at ''Arrays must be heterogeneous'' 1)
   \<and> parse c (''x = [1, '' @ [CHR 0x22] @ ''a'' @ [CHR 0x22] @ '']'')
       = Inl (parse_exception_at ''Arrays must be heterogeneous'' 1)"
proof (rule platform_cases[of _ c])
  fix f
  show "parse \<lparr>CPPTOML_HAS_STD_REGEX = True, stod = f\<rparr> ''x = [true , 1]''
       = Inl (parse_exception_at ''Unable to parse array'' 1)
   \<and> parse \<lparr>CPPTOML_HAS_STD_REGEX = True, stod = f\<rparr> ''x = [1, true]''
       = Inl (parse_exception_at ''Attempted to parse invalid boolean value'' 1)
   \<and> parse \<lparr>CPPTOML_HAS_STD_REGEX = True, stod = f\<rparr> ''x = [1, true ]''
       = Inl (parse_exception_at ''Arrays must be heterogeneous'' 1)
   \<and> parse \<lparr>CPPTOML_HAS_STD_REGEX = True, stod = f\<rparr>
         (''x = [1, '' @ [CHR 0x22] @ ''a'' @ [CHR 0x22] @ '']'')
       = Inl (parse_exception_at ''Arrays must be heterogeneous'' 1)"
    by code_simp
  show "parse \<lparr>CPPTOML_HAS_STD_REGEX = False, stod = f\<rparr> ''x = [true , 1]''
       = Inl (parse_exception_at ''Unable to parse array'' 1)
   \<and> parse \<lparr>CPPTOML_HAS_STD_REGEX = False, stod = f\<rparr> ''x = [1, true]''
       = Inl (parse_exception_at ''Attempted to parse invalid boolean value'' 1)
   \<and> parse \<lparr>CPPTOML_HAS_STD_REGEX = False, stod = f\<rparr> ''x = [1, true ]''
       = Inl (parse_exception_at ''Arrays must be heterogeneous'' 1)
   \<and> parse \<lparr>CPPTOML_HAS_STD_REGEX = False, stod = f\<rparr>
         (''x = [1, '' @ [CHR 0x22] @ ''a'' @ [CHR 0x22] @ '']'')
       = Inl (parse_exception_at ''Arrays must be heterogeneous'' 1)"
    by code_simp
qed

section \<open>Repeated headers\<close>

text \<open>
  The state of \<open>parse\<close> after \<open>n\<close> turns of its loop, when the stream had that many
  lines to read and none of them raised.
\<close>

fun turns :: "platform \<Rightarrow> nat \<Rightarrow> parser \<times> table \<times> cursor \<Rightarrow> (parser \<times> table \<times> cursor) option" where
  "turns c 0 st = Some st"
| "turns c (Suc n) (p, root, curr_table) =
     (case next_line p of
        None \<Rightarrow> None
      | Some p1 \<Rightarrow>
          (case parse_line c p1 root curr_table of
             Inl e \<Rightarrow> None
           | Inr st \<Rightarrow> turns c n st))"

text \<open>
  The state in which turn \<open>n + 1\<close> of \<open>parse\<close> on a stream starts to look at the line
  it has read.
\<close>

definition line_read :: "platform \<Rightarrow> string \<Rightarrow> nat \<Rightarrow> (parser \<times> table \<times> cursor) option" where
  "line_read c stream n =
     (case turns c n (parser_of stream, [], []) of
        None \<Rightarrow> None
      | Some (p, root, curr_table) \<Rightarrow>
          (case next_line p of None \<Rightarrow> None | Some p1 \<Rightarrow> Some (p1, root, curr_table)))"

text \<open>
  A line that \<open>parse\<close> reads as the header of the single table \<open>name\<close>, and gets past
  the first two tests of \<open>parse_single_table\<close>.
\<close>

definition single_table_header :: "string \<Rightarrow> string \<Rightarrow> bool" where
  "single_table_header l name \<longleftrightarrow>
     (let it = consume_whitespace l 0 in
      it + 1 < length l \<and> l ! it = CHR ''['' \<and> l ! (it + 1) \<noteq> CHR ''[''
      \<and> std_find (CHR ''['') l (it + 1) (length l) = length l
      \<and> name = str_range l (it + 1) (std_find (CHR '']'') l (it + 1) (length l))
      \<and> name \<noteq> [])"

text \<open>
  A line that \<open>parse\<close> reads as the header of the table array \<open>name\<close>, a name of one
  segment, and gets past the tests of \<open>parse_table_array\<close>.
\<close>

definition table_array_header :: "string \<Rightarrow> string \<Rightarrow> bool" where
  "table_array_header l name \<longleftrightarrow>
     (let it = consume_whitespace l 0;
          kg_end = std_find (CHR '']'') l (it + 2) (length l)
      in it + 1 < length l \<and> l ! it = CHR ''['' \<and> l ! (it + 1) = CHR ''[''
         \<and> std_find (CHR ''['') l (it + 2) (length l) = length l
         \<and> kg_end \<noteq> length l \<and> deref l (kg_end + 1) = CHR '']''
         \<and> name = str_range l (it + 2) kg_end
         \<and> name \<noteq> [] \<and> CHR ''.'' \<notin> set name)"

lemma turns_add:
  "turns c (m + n) st = (case turns c m st of None \<Rightarrow> None | Some st' \<Rightarrow> turns c n st')"
proof (induction m arbitrary: st)
  case 0
  show ?case by simp
next
  case (Suc m)
  obtain p root cur where st: "st = (p, root, cur)" by (cases st)
  show ?case unfolding st by (auto simp: Suc split: option.splits sum.splits)
qed

lemma turns_parse_loop:
  "turns c n (p, root, cur) = Some (p', root', cur') \<Longrightarrow>
   parse_loop c p root cur = parse_loop c p' root' cur'"
proof (induction n arbitrary: p root cur)
  case 0
  then show ?case by simp
next
  case (Suc n)
  from Suc.prems obtain p1 p2 r2 c2 where a: "next_line p = Some p1"
    and b: "parse_line c p1 root cur = Inr (p2, r2, c2)"
    and r: "turns c n (p2, r2, c2) = Some (p', root', cur')"
    by (auto split: option.splits sum.splits)
  from Suc.IH[OF r] a b show ?case by (subst parse_loop.simps) simp
qed


lemma next_line_tables: "next_line p = Some p' \<Longrightarrow> tables p' = tables p"
  by (auto simp: next_line_def split: option.splits)

lemma next_line_number: "next_line p = Some p' \<Longrightarrow> line_number p' = line_number p + 1"
  by (auto simp: next_line_def split: option.splits)

lemma parse_line_tables:
  assumes "parse_line c p root cur = Inr (p', root', cur')"
  shows "tables p \<subseteq> tables p'"
  using parse_line_cases[OF assms]
  by (auto dest!: parse_table_cases parse_single_table_loop parse_table_array_loop
             parse_key_value_frame simp: frame_def)

lemma turns_tables:
  "turns c n (p, root, cur) = Some (p', root', cur') \<Longrightarrow> tables p \<subseteq> tables p'"
proof (induction n arbitrary: p root cur)
  case 0
  then show ?case by simp
next
  case (Suc n)
  from Suc.prems obtain p1 p2 r2 c2 where a: "next_line p = Some p1"
    and b: "parse_line c p1 root cur = Inr (p2, r2, c2)"
    and r: "turns c n (p2, r2, c2) = Some (p', root', cur')"
    by (auto split: option.splits sum.splits)
  from Suc.IH[OF r] next_line_tables[OF a] parse_line_tables[OF b] show ?case by auto
qed

lemma single_header_parse_line:
  assumes "single_table_header (line p) name"
  shows "parse_line c p root cur =
           parse_single_table p (consume_whitespace (line p) 0 + 1) root []"
    and "name = str_range (line p) (consume_whitespace (line p) 0 + 1)
                  (std_find (CHR '']'') (line p) (consume_whitespace (line p) 0 + 1) (length (line p)))"
  using assms
  by (auto simp: single_table_header_def parse_line_def parse_table_def Let_def)

lemma single_header_first:
  assumes "single_table_header (line p) name"
    and "parse_line c p root cur = Inr (p', root', cur')"
  shows "name \<in> tables p'"
  using assms(2) unfolding single_header_parse_line[OF assms(1)]
  by (auto dest!: parse_single_table_loop)

lemma single_header_again:
  assumes "single_table_header (line p) name" and "name \<in> tables p"
  shows "parse_line c p root cur = Inl (parse_exception_at ''Duplicate table'' (line_number p))"
proof -
  let ?it = "consume_whitespace (line p) 0 + 1"
  let ?e = "std_find (CHR '']'') (line p) ?it (length (line p))"
  from assms(1) have ob: "std_find (CHR ''['') (line p) ?it (length (line p)) = length (line p)"
    and name: "name = str_range (line p) ?it ?e" and ne: "name \<noteq> []"
    by (auto simp: single_table_header_def Let_def)
  from name ne have "?it \<noteq> ?e" by (auto simp: str_range_def)
  with ob name assms(2) show ?thesis
    unfolding single_header_parse_line(1)[OF assms(1)]
    by (simp add: parse_single_table_def Let_def throw_parse_exception_def)
qed


lemma find_if_found: "find_if P s b e < e \<Longrightarrow> P (s ! find_if P s b e)"
proof (induction P s b e rule: find_if.induct)
  case (1 P s b e)
  show ?case
  proof (cases "b < e")
    case False
    with "1.prems" find_if_beyond[of b e P s] show ?thesis by simp
  next
    case True
    show ?thesis
    proof (cases "P (s ! b)")
      case Pb: True
      with True have "find_if P s b e = b" by (subst find_if.simps) simp
      with Pb show ?thesis by simp
    next
      case False
      with True have eq: "find_if P s b e = find_if P s (Suc b) e" by (subst find_if.simps) simp
      from "1.IH"[OF True False] "1.prems" eq show ?thesis by simp
    qed
  qed
qed

lemma std_find_absent:
  assumes "c \<notin> set (str_range s b e)" and "b \<le> e" and "e \<le> length s"
  shows "std_find c s b e = e"
proof (rule ccontr)
  let ?r = "std_find c s b e"
  assume ne: "?r \<noteq> e"
  from find_if_bounds[OF assms(2), of "\<lambda>x. x = c" s] have bounds: "b \<le> ?r" "?r \<le> e"
    by (simp_all add: std_find_def)
  with ne have lt: "?r < e" by simp
  from find_if_found[of "\<lambda>x. x = c" s b e] lt have at: "s ! ?r = c" by (simp add: std_find_def)
  have "str_range s b e ! (?r - b) = s ! ?r"
    using bounds lt assms(3) by (simp add: str_range_def)
  moreover have "?r - b < length (str_range s b e)"
    using bounds lt assms(3) by (simp add: str_range_def)
  ultimately have "s ! ?r \<in> set (str_range s b e)" by (metis nth_mem)
  with at assms(1) show False by simp
qed

text \<open>What the header of a table array of one segment does to the document.\<close>

lemma table_array_header_parse_line:
  assumes "table_array_header (line p) name"
  shows "parse_line c p root cur =
           (case map_of root name of
              None \<Rightarrow> Inr (p, insert_table name (Table_array [[]]) root, [name])
            | Some (Table_array ts) \<Rightarrow>
                Inr (p, AList.update name (Table_array (ts @ [[]])) root, [name])
            | Some _ \<Rightarrow> Inl (parse_exception_at ''Expected keytable array'' (line_number p)))"
proof -
  define s where "s = line p"
  define i where "i = consume_whitespace s 0"
  define it where "it = i + 2"
  define kg where "kg = std_find (CHR '']'') s it (length s)"
  from assms have h: "i + 1 < length s" "s ! i = CHR ''[''" "s ! (i + 1) = CHR ''[''"
    "std_find (CHR ''['') s it (length s) = length s" "kg \<noteq> length s"
    "deref s (kg + 1) = CHR '']''" "name = str_range s it kg" "name \<noteq> []"
    "CHR ''.'' \<notin> set name"
    by (auto simp: table_array_header_def Let_def s_def i_def it_def kg_def)
  from h(1) have le: "it \<le> length s" by (simp add: it_def)
  from find_if_bounds[OF le, of "\<lambda>x. x = CHR '']''" s] have e: "it \<le> kg" "kg \<le> length s"
    by (simp_all add: std_find_def kg_def)
  from h(7,8) have ne: "it \<noteq> kg" by (auto simp: str_range_def)
  have dot: "std_find (CHR ''.'') s it kg = kg"
    by (rule std_find_absent) (use h(7,9) e in auto)
  have "parse_line c p root cur = parse_table_array p (i + 1) root []"
    using h(1,2,3) by (simp add: parse_line_def parse_table_def Let_def s_def i_def)
  also have "\<dots> = (case table_array_loop p kg it root [] of
         Inl ex \<Rightarrow> Inl ex
       | Inr (root1, curr_table1, it1) \<Rightarrow> Inr (p, root1, curr_table1))"
  proof -
    have it': "Suc (Suc i) = it" by (simp add: it_def)
    show ?thesis
      using h(4,5,6) ne
      by (simp add: parse_table_array_def Let_def s_def[symmetric] it' kg_def[symmetric])
  qed
  finally have line: "parse_line c p root cur = (case table_array_loop p kg it root [] of
         Inl ex \<Rightarrow> Inl ex
       | Inr (root1, curr_table1, it1) \<Rightarrow> Inr (p, root1, curr_table1))" .
  have part: "table_array_part p kg it root [] =
      (case map_of root name of
         None \<Rightarrow> Inr (insert_table name (Table_array [[]]) root, [name], kg)
       | Some (Table_array ts) \<Rightarrow> Inr (AList.update name (Table_array (ts @ [[]])) root, [name], kg)
       | Some _ \<Rightarrow> Inl (parse_exception_at ''Expected keytable array'' (line_number p)))"
    unfolding table_array_part_def Let_def s_def[symmetric] dot h(7)[symmetric]
    using h(8)
    by (simp add: contains_def get_def map_at_def throw_parse_exception_def
             split: option.splits base.splits)
  have stop: "table_array_loop p kg kg r cu = Inr (r, cu, kg)" for r cu
    by (subst table_array_loop.simps) simp
  have "table_array_loop p kg it root [] =
      (case table_array_part p kg it root [] of
         Inl e \<Rightarrow> Inl e
       | Inr (root', curr_table', it') \<Rightarrow> table_array_loop p kg it' root' curr_table')"
    using ne by (subst table_array_loop.simps) simp
  then have loop: "table_array_loop p kg it root [] =
      (case map_of root name of
         None \<Rightarrow> Inr (insert_table name (Table_array [[]]) root, [name], kg)
       | Some (Table_array ts) \<Rightarrow> Inr (AList.update name (Table_array (ts @ [[]])) root, [name], kg)
       | Some _ \<Rightarrow> Inl (parse_exception_at ''Expected keytable array'' (line_number p)))"
    unfolding part by (simp add: stop split: option.splits base.splits)
  show ?thesis
    unfolding line loop by (simp split: option.splits base.splits)
qed


text \<open>A key of the root table that holds a table array keeps holding one.\<close>

definition holds_table_array :: "table \<Rightarrow> string \<Rightarrow> bool" where
  "holds_table_array root name \<longleftrightarrow>
     (case map_of root name of Some (Table_array ts) \<Rightarrow> True | _ \<Rightarrow> False)"

lemma holds_table_array_iff:
  "holds_table_array root name \<longleftrightarrow> (\<exists>ts. map_of root name = Some (Table_array ts))"
  by (auto simp: holds_table_array_def split: option.splits base.splits)

lemma store_at_holds:
  assumes "holds_table_array root name"
    and "cur = [] \<Longrightarrow> holds_table_array t' name"
  shows "holds_table_array (store_at root cur t') name"
proof (cases cur)
  case Nil
  with assms(2) show ?thesis by simp
next
  case (Cons k ks)
  from assms(1) obtain ts where ts: "map_of root name = Some (Table_array ts)"
    by (auto simp: holds_table_array_iff)
  show ?thesis
  proof (cases "k = name")
    case True
    with ts Cons assms(1) show ?thesis
      by (auto simp: holds_table_array_iff update_conv')
  next
    case False
    with ts Cons assms(1) show ?thesis
      by (auto simp: holds_table_array_iff update_conv' split: option.splits base.splits)
  qed
qed

lemma insert_at_holds:
  assumes "holds_table_array root name" and "table_at root cur = Some t" and "\<not> contains t key"
  shows "holds_table_array (store_at root cur (insert_table key v t)) name"
proof (rule store_at_holds[OF assms(1)])
  assume "cur = []"
  with assms(2) have t: "t = root" by simp
  with assms(1,3) have "key \<noteq> name" by (auto simp: holds_table_array_iff contains_def)
  with assms(1) t show "holds_table_array (insert_table key v t) name"
    by (simp add: holds_table_array_def insert_table_def update_conv')
qed

lemma push_at_holds:
  assumes "holds_table_array root name" and "table_at root cur = Some t"
  shows "holds_table_array (store_at root cur (AList.update part (Table_array ts) t)) name"
proof (rule store_at_holds[OF assms(1)])
  assume "cur = []"
  with assms(2) have t: "t = root" by simp
  with assms(1) show "holds_table_array (AList.update part (Table_array ts) t) name"
    by (cases "part = name") (simp_all add: holds_table_array_def update_conv')
qed

lemma single_table_loop_holds:
  "single_table_loop p kg_end it root cur = Inr (root', cur', it') \<Longrightarrow>
   holds_table_array root name \<Longrightarrow> holds_table_array root' name"
proof (induction p kg_end it root cur rule: single_table_loop.induct)
  case (1 p kg_end it root cur)
  show ?case
  proof (cases "it \<noteq> kg_end")
    case True
    with "1.prems"(1) obtain r1 c1 it1 where a: "single_table_part p kg_end it root cur = Inr (r1, c1, it1)"
      and b: "single_table_loop p kg_end it1 r1 c1 = Inr (root', cur', it')"
      by (subst (asm) single_table_loop.simps) (auto split: sum.splits)
    from single_table_part_root[OF a] "1.prems"(2) have "holds_table_array r1 name"
      by (auto intro: insert_at_holds)
    from "1.IH"[OF True a refl refl b this] show ?thesis .
  next
    case False
    with "1.prems" show ?thesis by (subst (asm) single_table_loop.simps) auto
  qed
qed

lemma table_array_loop_holds:
  "table_array_loop p kg_end it root cur = Inr (root', cur', it') \<Longrightarrow>
   holds_table_array root name \<Longrightarrow> holds_table_array root' name"
proof (induction p kg_end it root cur rule: table_array_loop.induct)
  case (1 p kg_end it root cur)
  show ?case
  proof (cases "it \<noteq> kg_end")
    case True
    with "1.prems"(1) obtain r1 c1 it1 where a: "table_array_part p kg_end it root cur = Inr (r1, c1, it1)"
      and b: "table_array_loop p kg_end it1 r1 c1 = Inr (root', cur', it')"
      by (subst (asm) table_array_loop.simps) (auto split: sum.splits)
    from table_array_part_root[OF a] "1.prems"(2) have "holds_table_array r1 name"
      by (auto intro: insert_at_holds push_at_holds)
    from "1.IH"[OF True a refl refl b this] show ?thesis .
  next
    case False
    with "1.prems" show ?thesis by (subst (asm) table_array_loop.simps) auto
  qed
qed

lemma parse_key_value_root:
  assumes "parse_key_value c p it root cur = Inr (p', root')"
  shows "\<exists>t key v. table_at root cur = Some t \<and> \<not> contains t key
           \<and> root' = store_at root cur (insert_table key v t)"
  using assms
  by (fastforce simp: parse_key_value_def split: sum.splits option.splits if_splits)

lemma parse_line_holds:
  assumes "parse_line c p root cur = Inr (p', root', cur')" and "holds_table_array root name"
  shows "holds_table_array root' name"
  using parse_line_cases[OF assms(1)] assms(2)
  by (auto dest!: parse_table_cases parse_single_table_loop parse_table_array_loop
             parse_key_value_root
           dest: single_table_loop_holds table_array_loop_holds intro: insert_at_holds)

lemma turns_holds:
  "turns c n (p, root, cur) = Some (p', root', cur') \<Longrightarrow> holds_table_array root name \<Longrightarrow>
   holds_table_array root' name"
proof (induction n arbitrary: p root cur)
  case 0
  then show ?case by simp
next
  case (Suc n)
  from Suc.prems(1) obtain p1 p2 r2 c2 where a: "next_line p = Some p1"
    and b: "parse_line c p1 root cur = Inr (p2, r2, c2)"
    and r: "turns c n (p2, r2, c2) = Some (p', root', cur')"
    by (auto split: option.splits sum.splits)
  from Suc.IH[OF r parse_line_holds[OF b Suc.prems(2)]] show ?case .
qed

text \<open>Turn \<open>k + 1\<close> starts from what turn \<open>j + 1\<close> left, some turns later.\<close>

lemma line_read_later:
  assumes "line_read c stream j = Some (p1, r1, c1)" and "line_read c stream k = Some (p3, r3, c3)"
    and "j < k"
  shows "\<exists>p1' r1' c1' p2. parse_line c p1 r1 c1 = Inr (p1', r1', c1')
           \<and> turns c (k - j - 1) (p1', r1', c1') = Some (p2, r3, c3)
           \<and> next_line p2 = Some p3"
proof -
  from assms(1) obtain p0 where t0: "turns c j (parser_of stream, [], []) = Some (p0, r1, c1)"
    and n0: "next_line p0 = Some p1"
    by (auto simp: line_read_def split: option.splits)
  from assms(2) obtain p2 where t2: "turns c k (parser_of stream, [], []) = Some (p2, r3, c3)"
    and n2: "next_line p2 = Some p3"
    by (auto simp: line_read_def split: option.splits)
  from assms(3) have k: "k = j + (1 + (k - j - 1))" by simp
  from t2 have "turns c (1 + (k - j - 1)) (p0, r1, c1) = Some (p2, r3, c3)"
    by (subst (asm) k, subst (asm) turns_add) (simp add: t0)
  then obtain st where "parse_line c p1 r1 c1 = Inr st" "turns c (k - j - 1) st = Some (p2, r3, c3)"
    using n0 by (auto split: sum.splits)
  with n2 show ?thesis by (cases st) auto
qed

lemma line_read_parse:
  assumes "line_read c stream k = Some (p, root, cur)"
  shows "parse c stream = (case parse_line c p root cur of
                             Inl e \<Rightarrow> Inl e
                           | Inr (p', root', cur') \<Rightarrow> parse_loop c p' root' cur')"
proof -
  from assms obtain p0 where t: "turns c k (parser_of stream, [], []) = Some (p0, root, cur)"
    and n: "next_line p0 = Some p"
    by (auto simp: line_read_def split: option.splits)
  from turns_parse_loop[OF t] n show ?thesis
    unfolding parse_def by (subst (asm) (2) parse_loop.simps) simp
qed

text \<open>
  C3. When two turns of \<open>parse\<close> read a header of the same single table, \<open>parse\<close>
  raises \<open>Duplicate table\<close> at the line of the second. When two turns read a header of
  the same table array, the second raises nothing: it appends an empty table to the
  table array the key holds and makes that table the current one.
\<close>

theorem repeated_headers:
  "(line_read c stream j = Some (p1, r1, c1) \<and> single_table_header (line p1) name
      \<and> line_read c stream k = Some (p3, r3, c3) \<and> single_table_header (line p3) name
      \<and> j < k \<longrightarrow>
      parse c stream = Inl (parse_exception_at ''Duplicate table'' (line_number p3)))
   \<and> (line_read c stream j = Some (p1, r1, c1) \<and> table_array_header (line p1) name
      \<and> line_read c stream k = Some (p3, r3, c3) \<and> table_array_header (line p3) name
      \<and> j < k \<longrightarrow>
      (\<exists>ts. get_table_array r3 name = Inr (Some ts)
         \<and> parse_line c p3 r3 c3
             = Inr (p3, AList.update name (Table_array (ts @ [[]])) r3, [name])))"
proof (intro conjI impI)
  assume a: "line_read c stream j = Some (p1, r1, c1) \<and> single_table_header (line p1) name
      \<and> line_read c stream k = Some (p3, r3, c3) \<and> single_table_header (line p3) name \<and> j < k"
  with line_read_later[of c stream j p1 r1 c1 k p3 r3 c3]
  obtain p1' r1' c1' p2 where first: "parse_line c p1 r1 c1 = Inr (p1', r1', c1')"
    and between: "turns c (k - j - 1) (p1', r1', c1') = Some (p2, r3, c3)"
    and nxt: "next_line p2 = Some p3"
    by blast
  from a single_header_first[OF _ first] have "name \<in> tables p1'" by blast
  with turns_tables[OF between] next_line_tables[OF nxt] have "name \<in> tables p3" by auto
  with a single_header_again have "parse_line c p3 r3 c3
      = Inl (parse_exception_at ''Duplicate table'' (line_number p3))" by blast
  with a line_read_parse[of c stream k p3 r3 c3]
  show "parse c stream = Inl (parse_exception_at ''Duplicate table'' (line_number p3))" by simp
next
  assume a: "line_read c stream j = Some (p1, r1, c1) \<and> table_array_header (line p1) name
      \<and> line_read c stream k = Some (p3, r3, c3) \<and> table_array_header (line p3) name \<and> j < k"
  with line_read_later[of c stream j p1 r1 c1 k p3 r3 c3]
  obtain p1' r1' c1' p2 where first: "parse_line c p1 r1 c1 = Inr (p1', r1', c1')"
    and between: "turns c (k - j - 1) (p1', r1', c1') = Some (p2, r3, c3)"
    by blast
  from a have h1: "table_array_header (line p1) name" and h3: "table_array_header (line p3) name"
    by simp_all
  from first have "holds_table_array r1' name"
    unfolding table_array_header_parse_line[OF h1]
    by (auto simp: holds_table_array_def insert_table_def update_conv'
             split: option.splits base.splits)
  from turns_holds[OF between this] obtain ts where ts: "map_of r3 name = Some (Table_array ts)"
    by (auto simp: holds_table_array_iff)
  then have "get_table_array r3 name = Inr (Some ts)" by (simp add: get_table_array_total)
  moreover from ts have "parse_line c p3 r3 c3
      = Inr (p3, AList.update name (Table_array (ts @ [[]])) r3, [name])"
    unfolding table_array_header_parse_line[OF h3] by simp
  ultimately show "\<exists>ts. get_table_array r3 name = Inr (Some ts)
         \<and> parse_line c p3 r3 c3
             = Inr (p3, AList.update name (Table_array (ts @ [[]])) r3, [name])"
    by blast
qed

definition two_tables :: string where
  "two_tables = ''[a]'' @ [CHR 0x0A] @ ''[a]''"

definition two_elements :: string where
  "two_elements = ''[[a]]'' @ [CHR 0x0A] @ ''[[a]]''"

theorem repeated_headers_witness:
  "parse no_stod two_tables = Inl (parse_exception_at ''Duplicate table'' 2)
   \<and> parse_line no_stod \<lparr>input = [], line = ''[[a]]'', line_number = 2, tables = {}\<rparr>
        [(''a'', Table_array [[]])] [''a'']
       = Inr (\<lparr>input = [], line = ''[[a]]'', line_number = 2, tables = {}\<rparr>,
              [(''a'', Table_array [[], []])], [''a''])"
proof -
  let ?p1 = "\<lparr>input = ''[a]'', line = ''[a]'', line_number = 1, tables = {}\<rparr>"
  let ?p3 = "\<lparr>input = [], line = ''[a]'', line_number = 2, tables = {''a''}\<rparr>"
  let ?q1 = "\<lparr>input = ''[[a]]'', line = ''[[a]]'', line_number = 1, tables = {}\<rparr>"
  let ?q3 = "\<lparr>input = [], line = ''[[a]]'', line_number = 2, tables = {}\<rparr>"
  have a1: "line_read no_stod two_tables 0 = Some (?p1, [], [])" by code_simp
  have a3: "line_read no_stod two_tables 1 = Some (?p3, [(''a'', Table [])], [''a''])"
    by code_simp
  have ah: "single_table_header ''[a]'' ''a''" by code_simp
  have b1: "line_read no_stod two_elements 0 = Some (?q1, [], [])" by code_simp
  have b3: "line_read no_stod two_elements 1 = Some (?q3, [(''a'', Table_array [[]])], [''a''])"
    by code_simp
  have bh: "table_array_header ''[[a]]'' ''a''" by code_simp
  have g: "get_table_array [(''a'', Table_array [[]])] ''a'' = Inr (Some [[]])" by code_simp
  have "parse no_stod two_tables = Inl (parse_exception_at ''Duplicate table'' 2)"
    using repeated_headers[of no_stod two_tables 0 ?p1 "[]" "[]" "''a''" 1 ?p3
        "[(''a'', Table [])]" "[''a'']"] a1 a3 ah
    by simp
  moreover have "parse_line no_stod ?q3 [(''a'', Table_array [[]])] [''a'']
       = Inr (?q3, [(''a'', Table_array [[], []])], [''a''])"
    using repeated_headers[of no_stod two_elements 0 ?q1 "[]" "[]" "''a''" 1 ?q3
        "[(''a'', Table_array [[]])]" "[''a'']"] b1 b3 bh g
    by simp
  ultimately show ?thesis by simp
qed

section \<open>The header walk and the qualified lookup\<close>

lemma find_if_skip:
  "b \<le> m \<Longrightarrow> m \<le> e \<Longrightarrow> (\<forall>i. b \<le> i \<and> i < m \<longrightarrow> \<not> P (s ! i)) \<Longrightarrow>
   find_if P s b e = find_if P s m e"
proof (induction P s b e rule: find_if.induct)
  case (1 P s b e)
  show ?case
  proof (cases "b = m")
    case True
    then show ?thesis by simp
  next
    case False
    with "1.prems" have lt: "b < m" "b < e" and nP: "\<not> P (s ! b)" by auto
    then have "find_if P s b e = find_if P s (Suc b) e" by (subst find_if.simps) simp
    also have "\<dots> = find_if P s m e"
      using "1.IH"[OF lt(2) nP] lt "1.prems" by auto
    finally show ?thesis .
  qed
qed

lemma std_find_segment:
  assumes "c \<notin> set x" and "e = length pre + length x \<or> (length pre + length x < e \<and> hd rest = c \<and> rest \<noteq> [])"
  shows "std_find c (pre @ x @ rest) (length pre) e = length pre + length x"
proof -
  let ?s = "pre @ x @ rest" and ?m = "length pre + length x"
  have no: "\<forall>i. length pre \<le> i \<and> i < ?m \<longrightarrow> \<not> (?s ! i = c)"
  proof (intro allI impI)
    fix i assume i: "length pre \<le> i \<and> i < ?m"
    then have lt: "i - length pre < length x" and ge: "\<not> i < length pre" by arith+
    then have "?s ! i = x ! (i - length pre)" by (simp add: nth_append)
    moreover from lt have "x ! (i - length pre) \<in> set x" by (rule nth_mem)
    ultimately show "\<not> (?s ! i = c)" using assms(1) by auto
  qed
  from assms(2) have le: "?m \<le> e" by auto
  have "std_find c ?s (length pre) e = find_if (\<lambda>x. x = c) ?s ?m e"
    unfolding std_find_def using find_if_skip[of "length pre" ?m e "\<lambda>x. x = c" ?s] no le by simp
  also have "\<dots> = ?m"
  proof (cases "e = ?m")
    case True
    then show ?thesis by (simp add: find_if_beyond)
  next
    case False
    with assms(2) have "?m < e" "?s ! ?m = c"
      by (auto simp: nth_append hd_conv_nth)
    then show ?thesis by (subst find_if.simps) simp
  qed
  finally show ?thesis .
qed

lemma find_if_nowhere:
  assumes "\<forall>c\<in>set s. \<not> P c"
  shows "find_if P s 0 (length s) = length s"
proof -
  have "find_if P s 0 (length s) = find_if P s (length s) (length s)"
    using assms by (intro find_if_skip) auto
  then show ?thesis by (simp add: find_if_beyond)
qed

lemma str_range_segment: "str_range (pre @ x @ rest) (length pre) (length pre + length x) = x"
  by (simp add: str_range_def)

lemma table_at_append:
  "table_at root (cur @ ks) = (case table_at root cur of None \<Rightarrow> None | Some t \<Rightarrow> table_at t ks)"
  by (induction cur arbitrary: root) (auto split: option.splits)

lemma walk_table_at: "walk t ks = Some x \<Longrightarrow> table_at t ks = Some x"
  by (induction ks arbitrary: t) (auto split: option.splits base.splits)

lemma walk_append:
  "walk t (ks @ ks') = (case walk t ks of None \<Rightarrow> None | Some x \<Rightarrow> walk x ks')"
  by (induction ks arbitrary: t) (auto split: option.splits base.splits)

lemma set_dotted: "set (dotted parts) \<subseteq> \<Union> (set ` set parts) \<union> {CHR ''.''}"
  by (induction parts rule: dotted.induct) auto

lemma dotted_nonempty: "parts \<noteq> [] \<Longrightarrow> \<forall>x\<in>set parts. x \<noteq> [] \<Longrightarrow> dotted parts \<noteq> []"
  by (induction parts rule: dotted.induct) auto

text \<open>
  Along a path of existing tables the loop of \<open>parse_single_table\<close> changes nothing and
  moves the current table to the table \<open>walk\<close> arrives at.
\<close>

lemma single_table_loop_walk:
  assumes "\<forall>x\<in>set parts. x \<noteq> [] \<and> CHR ''.'' \<notin> set x"
    and "line p = pre @ dotted parts @ post"
    and "table_at root cur = Some t0"
    and "walk t0 parts = Some t"
  shows "single_table_loop p (length pre + length (dotted parts)) (length pre) root cur
           = Inr (root, cur @ parts, length pre + length (dotted parts))"
  using assms
proof (induction parts arbitrary: pre cur t0 rule: dotted.induct)
  case 1
  then show ?case by (subst single_table_loop.simps) simp
next
  case (2 x)
  let ?e = "length pre + length x"
  from "2.prems" have x: "x \<noteq> []" "CHR ''.'' \<notin> set x" by auto
  from "2.prems" obtain tx where tx: "map_of t0 x = Some (Table tx)"
    by (auto split: option.splits base.splits)
  have dot: "std_find (CHR ''.'') (line p) (length pre) ?e = ?e"
    using std_find_segment[OF x(2), of ?e pre post] "2.prems"(2) by simp
  have part: "str_range (line p) (length pre) ?e = x"
    using "2.prems"(2) by (simp add: str_range_segment)
  have step: "single_table_part p ?e (length pre) root cur = Inr (root, cur @ [x], ?e)"
    unfolding single_table_part_def Let_def dot part
    using x tx "2.prems"(3) by (simp add: contains_def get_def map_at_def)
  have "single_table_loop p ?e (length pre) root cur = single_table_loop p ?e ?e root (cur @ [x])"
    using x by (subst single_table_loop.simps) (simp add: step)
  also have "\<dots> = Inr (root, cur @ [x], ?e)" by (subst single_table_loop.simps) simp
  finally show ?case by simp
next
  case (3 x y ys)
  let ?rest = "dotted (y # ys)"
  let ?pre = "pre @ x @ ''.''"
  define e where "e = length pre + length (dotted (x # y # ys))"
  define it1 where "it1 = length ?pre"
  from "3.prems" have x: "x \<noteq> []" "CHR ''.'' \<notin> set x" by auto
  from "3.prems" obtain tx where tx: "map_of t0 x = Some (Table tx)" and w: "walk tx (y # ys) = Some t"
    by (auto split: option.splits base.splits)
  have l: "line p = pre @ x @ (CHR ''.'' # ?rest @ post)" using "3.prems"(2) by simp
  have e: "e = length ?pre + length ?rest" by (simp add: e_def)
  have ne: "length pre \<noteq> e" "length pre + length x \<noteq> e" by (simp_all add: e_def)
  have dot: "std_find (CHR ''.'') (line p) (length pre) e = length pre + length x"
    unfolding l by (rule std_find_segment[OF x(2)]) (simp add: e_def)
  have part: "str_range (line p) (length pre) (length pre + length x) = x"
    unfolding l by (rule str_range_segment)
  have it1: "length pre + length x + 1 = it1" by (simp add: it1_def)
  have step: "single_table_part p e (length pre) root cur = Inr (root, cur @ [x], it1)"
    unfolding single_table_part_def Let_def dot part
    using x tx "3.prems"(3) ne it1 by (simp add: contains_def get_def map_at_def)
  have at: "table_at root (cur @ [x]) = Some tx"
    using "3.prems"(3) tx by (simp add: table_at_append)
  have l': "line p = ?pre @ ?rest @ post" using "3.prems"(2) by simp
  have "single_table_loop p e (length pre) root cur = single_table_loop p e it1 root (cur @ [x])"
    using ne by (subst single_table_loop.simps) (simp add: step)
  also have "\<dots> = Inr (root, (cur @ [x]) @ y # ys, e)"
    unfolding e it1_def using "3.IH"[OF _ l' at w] "3.prems"(1) by simp
  finally show ?case unfolding e_def by simp
qed


lemma consume_whitespace_stays:
  "\<not> (it < length s \<and> is_space (s ! it)) \<Longrightarrow> consume_whitespace s it = it"
  by (subst consume_whitespace.simps) auto

text \<open>A segment of a table name as a header line can spell it.\<close>

definition plain_part :: "string \<Rightarrow> bool" where
  "plain_part x \<longleftrightarrow>
     x \<noteq> [] \<and> list_all (\<lambda>ch. ch \<noteq> CHR ''.'' \<and> ch \<noteq> CHR ''['' \<and> ch \<noteq> CHR '']'' \<and> \<not> is_space ch) x"

lemma plain_dotted:
  assumes "\<forall>x\<in>set parts. plain_part x"
  shows "\<forall>ch\<in>set (dotted parts). ch \<noteq> CHR ''['' \<and> ch \<noteq> CHR '']'' \<and> \<not> is_space ch"
proof
  fix ch assume "ch \<in> set (dotted parts)"
  with set_dotted[of parts] have "ch = CHR ''.'' \<or> (\<exists>x\<in>set parts. ch \<in> set x)" by auto
  with assms show "ch \<noteq> CHR ''['' \<and> ch \<noteq> CHR '']'' \<and> \<not> is_space ch"
    by (auto simp: plain_part_def list_all_iff is_space_def)
qed

lemma get_table_qualified_walk:
  assumes "parts \<noteq> []" and "\<forall>x\<in>set parts. CHR ''.'' \<notin> set x"
    and "get_table_qualified root (dotted parts) = Inr (Some t)"
  shows "walk root parts = Some t"
proof -
  from assms(1,2) have sp: "split_str (dotted parts) (CHR ''.'') = parts" by (rule split_str_dotted)
  from assms(3) obtain x b where x: "walk root (butlast parts) = Some x"
    and b: "map_of x (last parts) = Some b" and t: "as_table b = Some t"
    unfolding get_table_qualified_total get_qualified_cases sp
    by (auto split: option.splits sum.splits)
  from t have "b = Table t" by (cases b) auto
  with x b have "walk root (butlast parts @ [last parts]) = Some t" by (simp add: walk_append)
  with assms(1) show ?thesis by simp
qed

lemma single_table_header_walk:
  assumes ne: "parts \<noteq> []" and plain: "\<forall>x\<in>set parts. plain_part x"
    and l: "line p = ''['' @ dotted parts @ '']''"
    and w: "walk root parts = Some t"
  shows "single_table_loop p (Suc (length (dotted parts))) 1 root []
           = Inr (root, parts, Suc (length (dotted parts)))"
    and "parse_line c p root cur
           = (if dotted parts \<in> tables p
              then Inl (parse_exception_at ''Duplicate table'' (line_number p))
              else Inr (p\<lparr>tables := insert (dotted parts) (tables p)\<rparr>, root, parts))"
proof -
  define name where "name = dotted parts"
  define s where "s = line p"
  define p1 where "p1 = p\<lparr>tables := insert name (tables p)\<rparr>"
  define kg_end where "kg_end = 1 + length name"
  from plain have seg: "\<forall>x\<in>set parts. x \<noteq> [] \<and> CHR ''.'' \<notin> set x"
    by (auto simp: plain_part_def list_all_iff)
  with ne have n0: "name \<noteq> []" unfolding name_def by (intro dotted_nonempty) auto
  from plain_dotted[OF plain]
  have chars: "\<forall>ch\<in>set name. ch \<noteq> CHR ''['' \<and> ch \<noteq> CHR '']'' \<and> \<not> is_space ch"
    by (simp add: name_def)
  have s: "s = ''['' @ name @ '']''" using l by (simp add: s_def name_def)
  have len: "length s = kg_end + 1" by (simp add: s kg_end_def)
  from n0 chars have hd: "s ! 1 \<noteq> CHR ''[''" by (cases name) (auto simp: s)
  have cw: "consume_whitespace s 0 = 0"
    by (rule consume_whitespace_stays) (simp add: s is_space_def)
  have ob: "std_find (CHR ''['') s 1 (length s) = length s"
  proof (rule std_find_absent)
    have "str_range s 1 (length s) = name @ '']''" by (simp add: s str_range_def)
    with chars show "CHR ''['' \<notin> set (str_range s 1 (length s))" by auto
  qed (simp_all add: s)
  have cb: "std_find (CHR '']'') s 1 (length s) = kg_end"
    using std_find_segment[of "CHR '']''" name "length s" "''[''" "'']''"] chars
    by (auto simp: s kg_end_def)
  have tn: "str_range s 1 kg_end = name"
    using str_range_segment[of "''[''" name "'']''"] by (simp add: s kg_end_def)
  have ws: "find_if (\<lambda>c. c = CHR '' '' \<or> c = CHR 0x09) name 0 (length name) = length name"
    using chars by (intro find_if_nowhere) (auto simp: is_space_def)
  have l1: "line p1 = ''['' @ dotted parts @ '']''" using l by (simp add: p1_def)
  have loop: "single_table_loop p1 kg_end 1 root [] = Inr (root, parts, kg_end)"
    using single_table_loop_walk[OF seg l1, of root "[]" root t] w
    by (simp add: kg_end_def name_def)
  show "single_table_loop p (Suc (length (dotted parts))) 1 root []
           = Inr (root, parts, Suc (length (dotted parts)))"
    using single_table_loop_walk[OF seg l, of root "[]" root t] w by simp
  have tail: "eol_or_comment p1 (consume_whitespace s (kg_end + 1)) = Inr ()"
    using consume_whitespace_stays[of "kg_end + 1" s] len
    by (simp add: eol_or_comment_def p1_def s_def)
  have k1: "kg_end \<noteq> 1" using n0 by (simp add: kg_end_def)
  have "parse_single_table p 1 root []
          = (if name \<in> tables p then Inl (parse_exception_at ''Duplicate table'' (line_number p))
             else Inr (p1, root, parts))"
    unfolding parse_single_table_def Let_def s_def[symmetric] ob cb tn ws p1_def[symmetric]
    using k1 loop tail len by (simp add: throw_parse_exception_def)
  moreover have "parse_line c p root cur = parse_single_table p 1 root []"
    unfolding parse_line_def parse_table_def Let_def s_def[symmetric] cw
    using hd len by (simp add: s)
  ultimately show "parse_line c p root cur
           = (if dotted parts \<in> tables p
              then Inl (parse_exception_at ''Duplicate table'' (line_number p))
              else Inr (p\<lparr>tables := insert (dotted parts) (tables p)\<rparr>, root, parts))"
    by (simp add: p1_def name_def)
qed

text \<open>
  C9, the part that holds. Take a dotted path whose segments are not empty and hold no
  dot, bracket, blank or tab, and a document in which \<open>get_table_qualified\<close> resolves the
  path to a table. On the header line \<open>[path]\<close> the walk of \<open>parse_single_table\<close> over
  the path leaves the document as it is and ends at that table, whatever the state of
  the parser. The line as a whole raises \<open>Duplicate table\<close> when the parser has read the
  same header before, and otherwise returns the unchanged document with that table as
  the current one.
\<close>

theorem header_walk_reaches_the_table:
  assumes "parts \<noteq> []" and "\<forall>x\<in>set parts. plain_part x"
    and "line p = ''['' @ dotted parts @ '']''"
    and "get_table_qualified root (dotted parts) = Inr (Some t)"
  shows "single_table_loop p (Suc (length (dotted parts))) 1 root []
           = Inr (root, parts, Suc (length (dotted parts)))
         \<and> table_at root parts = Some t
         \<and> parse_line c p root cur
           = (if dotted parts \<in> tables p
              then Inl (parse_exception_at ''Duplicate table'' (line_number p))
              else Inr (p\<lparr>tables := insert (dotted parts) (tables p)\<rparr>, root, parts))"
proof -
  from assms(2) have "\<forall>x\<in>set parts. CHR ''.'' \<notin> set x"
    by (auto simp: plain_part_def list_all_iff)
  from get_table_qualified_walk[OF assms(1) this assms(4)] have w: "walk root parts = Some t" .
  from single_table_header_walk[OF assms(1-3) w] walk_table_at[OF w] show ?thesis by simp
qed

definition nested_tables :: table where
  "nested_tables = [(''a'', Table [(''b'', Table [(''x'', Value (Bool True))])])]"

theorem header_walk_reaches_the_table_witness:
  "single_table_loop \<lparr>input = [], line = ''[a.b]'', line_number = 1, tables = {}\<rparr> 4 1
     nested_tables [] = Inr (nested_tables, [''a'', ''b''], 4)
   \<and> table_at nested_tables [''a'', ''b''] = Some [(''x'', Value (Bool True))]
   \<and> parse_line no_stod \<lparr>input = [], line = ''[a.b]'', line_number = 1, tables = {}\<rparr>
       nested_tables []
     = Inr (\<lparr>input = [], line = ''[a.b]'', line_number = 1, tables = {''a.b''}\<rparr>,
            nested_tables, [''a'', ''b''])
   \<and> parse_line no_stod \<lparr>input = [], line = ''[a.b]'', line_number = 3, tables = {''a.b''}\<rparr>
       nested_tables []
     = Inl (parse_exception_at ''Duplicate table'' 3)"
proof -
  let ?p = "\<lparr>input = [], line = ''[a.b]'', line_number = 1, tables = {}\<rparr>"
  let ?q = "\<lparr>input = [], line = ''[a.b]'', line_number = 3, tables = {''a.b''}\<rparr>"
  have four: "(4::nat) = Suc (Suc (Suc (Suc 0)))" by simp
  have a: "\<forall>x\<in>set [''a'', ''b'']. plain_part x" by code_simp
  have b: "line ?p = ''['' @ dotted [''a'', ''b''] @ '']''"
    "line ?q = ''['' @ dotted [''a'', ''b''] @ '']''" by simp_all
  have g: "get_table_qualified nested_tables (dotted [''a'', ''b''])
             = Inr (Some [(''x'', Value (Bool True))])" by code_simp
  from header_walk_reaches_the_table[of "[''a'', ''b'']" ?p nested_tables
      "[(''x'', Value (Bool True))]" no_stod "[]"] a b g
  have 1: "single_table_loop ?p 4 1 nested_tables [] = Inr (nested_tables, [''a'', ''b''], 4)
    \<and> table_at nested_tables [''a'', ''b''] = Some [(''x'', Value (Bool True))]
    \<and> parse_line no_stod ?p nested_tables []
       = Inr (\<lparr>input = [], line = ''[a.b]'', line_number = 1, tables = {''a.b''}\<rparr>,
            nested_tables, [''a'', ''b''])"
    by (simp add: four)
  from header_walk_reaches_the_table[of "[''a'', ''b'']" ?q nested_tables
      "[(''x'', Value (Bool True))]" no_stod "[]"] a b g
  have 2: "parse_line no_stod ?q nested_tables [] = Inl (parse_exception_at ''Duplicate table'' 3)"
    by simp
  from 1 2 show ?thesis by simp
qed

text \<open>
  C9 as the specification has it fails. With \<open>a\<close> a table array, the header \<open>[a.b]\<close>
  resolves \<open>a\<close> to the last table of the array and \<open>b\<close> in there, while the qualified
  lookup of \<open>a.b\<close> finds nothing. With a table under the empty key of \<open>a\<close>, the path
  \<open>a.\<close> resolves in both: the header stops at \<open>a\<close>, the lookup goes on to the table
  under the empty key.
\<close>

definition array_of_tables :: table where
  "array_of_tables = [(''a'', Table_array [[(''b'', Table [(''x'', Value (Bool True))])]])]"

definition empty_key :: table where
  "empty_key = [(''a'', Table [([], Table [(''x'', Value (Bool True))])])]"

theorem header_walk_differs:
  "parse_line no_stod \<lparr>input = [], line = ''[a.b]'', line_number = 1, tables = {}\<rparr> array_of_tables []
     = Inr (\<lparr>input = [], line = ''[a.b]'', line_number = 1, tables = {''a.b''}\<rparr>,
            array_of_tables, [''a'', ''b''])
   \<and> table_at array_of_tables [''a'', ''b''] = Some [(''x'', Value (Bool True))]
   \<and> contains_qualified array_of_tables ''a.b'' = Inr False
   \<and> get_table_qualified array_of_tables ''a.b'' = Inr None
   \<and> get_qualified array_of_tables ''a.b'' = Inl (out_of_range ''a.b is not a valid key'')
   \<and> parse_line no_stod \<lparr>input = [], line = ''[a.]'', line_number = 1, tables = {}\<rparr> empty_key []
     = Inr (\<lparr>input = [], line = ''[a.]'', line_number = 1, tables = {''a.''}\<rparr>,
            empty_key, [''a''])
   \<and> table_at empty_key [''a''] = Some [([], Table [(''x'', Value (Bool True))])]
   \<and> get_table_qualified empty_key ''a.'' = Inr (Some [(''x'', Value (Bool True))])"
  by code_simp

end
